theory Spec2Isabelle
  imports Complex_Main "HOL-Library.Multiset" "HOL-Library.Sublist"
    "HOL-Library.List_Lexorder" "HOL-Library.Char_ord"
begin

section \<open>Strings and numbers of the host language\<close>

text \<open>
  The browser is a TypeScript program. Its strings are modelled as \<^typ>\<open>string\<close> over the
  ASCII range: \<open>toLowerCase\<close> folds \<open>A\<close>..\<open>Z\<close>, and white space is the six ASCII
  white-space characters that \<^verbatim>\<open>\s\<close> and \<^verbatim>\<open>trim\<close> recognise there. Integers are
  unbounded \<^typ>\<open>int\<close> (the program only ever holds indices and epoch seconds in them).
\<close>

definition isSpace :: "char \<Rightarrow> bool" where
  "isSpace c = (c \<in> set [CHR 0x09, CHR 0x0A, CHR 0x0B, CHR 0x0C, CHR 0x0D, CHR '' ''])"

definition toLowerChar :: "char \<Rightarrow> char" where
  "toLowerChar c =
     (let n = (of_char c :: nat) in if 65 \<le> n \<and> n \<le> 90 then char_of (n + 32) else c)"

definition toLowerCase :: "string \<Rightarrow> string" where
  "toLowerCase s = map toLowerChar s"

text \<open>\<^verbatim>\<open>s.trim()\<close>\<close>

definition trim :: "string \<Rightarrow> string" where
  "trim s = rev (dropWhile isSpace (rev (dropWhile isSpace s)))"

text \<open>\<^verbatim>\<open>s.split(/\s+/)\<close>: every maximal run of white space is one separator; a separator at
  either end leaves an empty string there, and the empty string splits into one empty string.\<close>

function splitWs :: "string \<Rightarrow> string list" where
  "splitWs [] = [[]]"
| "splitWs (c # cs) =
     (if isSpace c then [] # splitWs (dropWhile isSpace cs)
      else (case splitWs cs of w # ws \<Rightarrow> (c # w) # ws | [] \<Rightarrow> [[c]]))"
  by pat_completeness auto
termination
  by (relation "measure length") (auto simp: length_dropWhile_le le_imp_less_Suc)

text \<open>\<^verbatim>\<open>s.split(",")\<close> for a one-character separator.\<close>

fun splitOn :: "char \<Rightarrow> string \<Rightarrow> string list" where
  "splitOn d [] = [[]]"
| "splitOn d (c # cs) =
     (if c = d then [] # splitOn d cs
      else (case splitOn d cs of w # ws \<Rightarrow> (c # w) # ws | [] \<Rightarrow> [[c]]))"

text \<open>\<^verbatim>\<open>values.join(sep)\<close>\<close>

fun joinWith :: "string \<Rightarrow> string list \<Rightarrow> string" where
  "joinWith sep [] = []"
| "joinWith sep [x] = x"
| "joinWith sep (x # y # ys) = x @ sep @ joinWith sep (y # ys)"

text \<open>\<^verbatim>\<open>hay.includes(t)\<close>: \<open>t\<close> occurs in \<open>hay\<close> as a contiguous substring.\<close>

fun strIncludes :: "string \<Rightarrow> string \<Rightarrow> bool" where
  "strIncludes hay [] = True"
| "strIncludes [] (t # ts) = False"
| "strIncludes (h # hs) (t # ts) = (prefix (t # ts) (h # hs) \<or> strIncludes hs (t # ts))"

text \<open>\<^verbatim>\<open>String(n)\<close> for a non-negative integer, and for any integer.\<close>

definition digitChar :: "nat \<Rightarrow> char" where
  "digitChar d = char_of (48 + d)"

fun natToString :: "nat \<Rightarrow> string" where
  "natToString n = (if n < 10 then [digitChar n] else natToString (n div 10) @ [digitChar (n mod 10)])"

declare natToString.simps [simp del]

definition intToString :: "int \<Rightarrow> string" where
  "intToString i = (if i < 0 then CHR ''-'' # natToString (nat (- i)) else natToString (nat i))"

text \<open>
  \<^verbatim>\<open>Number.parseInt(s, 10)\<close>: leading white space is skipped, one sign is read, then the
  longest run of decimal digits; \<open>None\<close> stands for \<^verbatim>\<open>NaN\<close> (no digit was found).
\<close>

definition isDigit :: "char \<Rightarrow> bool" where
  "isDigit c = (let n = (of_char c :: nat) in 48 \<le> n \<and> n \<le> 57)"

definition digitVal :: "char \<Rightarrow> nat" where
  "digitVal c = of_char c - 48"

definition digitsVal :: "string \<Rightarrow> nat" where
  "digitsVal ds = foldl (\<lambda>acc c. 10 * acc + digitVal c) 0 ds"

definition parseInt :: "string \<Rightarrow> int option" where
  "parseInt s =
     (let s1 = dropWhile isSpace s;
          neg = (case s1 of c # _ \<Rightarrow> c = CHR ''-'' | [] \<Rightarrow> False);
          s2 = (case s1 of c # r \<Rightarrow> if c = CHR ''-'' \<or> c = CHR ''+'' then r else s1 | [] \<Rightarrow> s1);
          ds = takeWhile isDigit s2
      in if ds = [] then None
         else Some (if neg then - int (digitsVal ds) else int (digitsVal ds)))"

section \<open>Entries and their normalization\<close>

text \<open>
  \<^verbatim>\<open>RawLitematicEntry\<close> and \<^verbatim>\<open>LitematicEntry\<close>, with the fields the filter, the sort and the
  codec read. (The byte size, the dimensions, the data version and the two resource paths
  are only displayed.) \<^verbatim>\<open>timeCreated\<close> is a string or a number in the fetched JSON.
  The fields \<^verbatim>\<open>file\<close>, \<^verbatim>\<open>size\<close> and \<^verbatim>\<open>id\<close> are \<open>file_name\<close>, \<open>size_str\<close> and
  \<open>entry_id\<close> here, their own names being taken.
\<close>

datatype timeCreated = TimeString string | TimeNumber int

record RawLitematicEntry =
  file_name :: string
  size_str :: string
  version :: string
  timeCreated :: timeCreated
  author :: string

record LitematicEntry = RawLitematicEntry +
  entry_id :: string
  createdAt :: int

text \<open>The callback of \<^verbatim>\<open>json.entries.map((entry, idx) => ...)\<close> in \<^verbatim>\<open>load\<close>: the id is
  \<^verbatim>\<open>`${entry.file}-${idx}`\<close>, and a time that does not parse becomes 0.\<close>

definition normalizeEntry :: "RawLitematicEntry \<Rightarrow> nat \<Rightarrow> LitematicEntry" where
  "normalizeEntry entry idx =
     \<lparr> file_name = file_name entry, size_str = size_str entry, version = version entry,
       timeCreated = timeCreated entry, author = author entry,
       entry_id = file_name entry @ ''-'' @ natToString idx,
       createdAt = (case timeCreated entry of
                      TimeString t \<Rightarrow> (case parseInt t of Some n \<Rightarrow> n | None \<Rightarrow> 0)
                    | TimeNumber n \<Rightarrow> n) \<rparr>"

definition normalized :: "RawLitematicEntry list \<Rightarrow> LitematicEntry list" where
  "normalized raw = map (\<lambda>(entry, idx). normalizeEntry entry idx) (zip raw [0 ..< length raw])"

section \<open>The state of the application\<close>

datatype SortKey = Newest | Oldest | Az

text \<open>The \<^verbatim>\<open>useState\<close> cells and \<^verbatim>\<open>useRef\<close> cells of \<^verbatim>\<open>App\<close> that the engine reads and
  writes.\<close>

record App =
  entries :: "LitematicEntry list"
  q :: string
  versionIncludes :: "string list"
  versionExcludes :: "string list"
  authorIncludes :: "string list"
  authorExcludes :: "string list"
  sortKey :: SortKey
  preview :: "LitematicEntry option"
  windowStart :: int
  anchorIndex :: int
  pendingPreviewId :: "string option"
  pendingIndex :: "int option"
  pendingScrollId :: "string option"
  restoringRef :: bool

definition initialApp :: App where
  "initialApp =
     \<lparr> entries = [], q = [], versionIncludes = [], versionExcludes = [],
       authorIncludes = [], authorExcludes = [], sortKey = Newest, preview = None,
       windowStart = 0, anchorIndex = 0, pendingPreviewId = None, pendingIndex = None,
       pendingScrollId = None, restoringRef = False \<rparr>"

definition WINDOW_SIZE :: int where
  "WINDOW_SIZE = 200"

definition BUFFER_ROWS :: int where
  "BUFFER_ROWS = 3"

definition ROW_GAP :: real where
  "ROW_GAP = 16"

section \<open>The filter and sort pipeline\<close>

definition searchTerms :: "App \<Rightarrow> string list" where
  "searchTerms s = filter (\<lambda>w. w \<noteq> []) (splitWs (toLowerCase (q s)))"

text \<open>\<^verbatim>\<open>values.length ? new Set(values) : null\<close>\<close>

definition setOrNull :: "string list \<Rightarrow> string set option" where
  "setOrNull values = (if values = [] then None else Some (set values))"

definition versionIncludeSet :: "App \<Rightarrow> string set option" where
  "versionIncludeSet s = setOrNull (versionIncludes s)"

definition versionExcludeSet :: "App \<Rightarrow> string set option" where
  "versionExcludeSet s = setOrNull (versionExcludes s)"

definition authorIncludeSet :: "App \<Rightarrow> string set option" where
  "authorIncludeSet s = setOrNull (authorIncludes s)"

definition authorExcludeSet :: "App \<Rightarrow> string set option" where
  "authorExcludeSet s = setOrNull (authorExcludes s)"

text \<open>\<^verbatim>\<open>S && S.has(x)\<close> and \<^verbatim>\<open>S && !S.has(x)\<close>\<close>

definition setHas :: "string set option \<Rightarrow> string \<Rightarrow> bool" where
  "setHas S x = (case S of None \<Rightarrow> False | Some A \<Rightarrow> x \<in> A)"

definition setLacks :: "string set option \<Rightarrow> string \<Rightarrow> bool" where
  "setLacks S x = (case S of None \<Rightarrow> False | Some A \<Rightarrow> x \<notin> A)"

definition matchesSearch :: "LitematicEntry \<Rightarrow> string list \<Rightarrow> bool" where
  "matchesSearch entry terms =
     (if terms = [] then True
      else (let hay = toLowerCase (file_name entry @ '' '' @ author entry @ '' '' @
                                   version entry @ '' '' @ size_str entry)
            in list_all (\<lambda>t. strIncludes hay t) terms))"

text \<open>The callback of \<^verbatim>\<open>entries.filter\<close> in \<^verbatim>\<open>filtered\<close>.\<close>

definition filterKeeps :: "App \<Rightarrow> LitematicEntry \<Rightarrow> bool" where
  "filterKeeps s entry =
     (if setHas (versionExcludeSet s) (version entry) then False
      else if setHas (authorExcludeSet s) (author entry) then False
      else if setLacks (versionIncludeSet s) (version entry) then False
      else if setLacks (authorIncludeSet s) (author entry) then False
      else matchesSearch entry (searchTerms s))"

text \<open>
  \<^verbatim>\<open>[...list].sort(cmp)\<close>: the language fixes the sort as stable, and for a consistent
  comparator the stable sorted arrangement is unique; it is computed here by insertion
  from the right, each element going before the first one that it does not follow.
\<close>

fun insertBy :: "('a \<Rightarrow> 'a \<Rightarrow> int) \<Rightarrow> 'a \<Rightarrow> 'a list \<Rightarrow> 'a list" where
  "insertBy cmp x [] = [x]"
| "insertBy cmp x (y # ys) = (if cmp x y \<le> 0 then x # y # ys else y # insertBy cmp x ys)"

definition sortBy :: "('a \<Rightarrow> 'a \<Rightarrow> int) \<Rightarrow> 'a list \<Rightarrow> 'a list" where
  "sortBy cmp xs = foldr (insertBy cmp) xs []"

text \<open>
  The comparator of \<^verbatim>\<open>filtered\<close>. The platform's collation
  \<^verbatim>\<open>a.localeCompare(b, undefined, { sensitivity: "base" })\<close> is the parameter
  \<open>localeCompare\<close>.
\<close>

definition compareEntries ::
  "(string \<Rightarrow> string \<Rightarrow> int) \<Rightarrow> SortKey \<Rightarrow> LitematicEntry \<Rightarrow> LitematicEntry \<Rightarrow> int" where
  "compareEntries localeCompare key a b =
     (if key = Oldest then createdAt a - createdAt b
      else if key = Az then localeCompare (file_name a) (file_name b)
      else createdAt b - createdAt a)"

definition filtered :: "(string \<Rightarrow> string \<Rightarrow> int) \<Rightarrow> App \<Rightarrow> LitematicEntry list" where
  "filtered localeCompare s =
     sortBy (compareEntries localeCompare (sortKey s)) (filter (filterKeeps s) (entries s))"

section \<open>The facet counter\<close>

text \<open>The callbacks of \<^verbatim>\<open>versionPreviewList\<close> and \<^verbatim>\<open>authorPreviewList\<close>: the lists whose
  entries are counted per version and per author for the option boxes.\<close>

definition versionPreviewList :: "App \<Rightarrow> LitematicEntry list" where
  "versionPreviewList s =
     filter (\<lambda>entry.
        if setHas (versionExcludeSet s) (version entry) then False
        else if setHas (authorExcludeSet s) (author entry) then False
        else if setLacks (authorIncludeSet s) (author entry) then False
        else matchesSearch entry (searchTerms s)) (entries s)"

definition authorPreviewList :: "App \<Rightarrow> LitematicEntry list" where
  "authorPreviewList s =
     filter (\<lambda>entry.
        if setHas (versionExcludeSet s) (version entry) then False
        else if setHas (authorExcludeSet s) (author entry) then False
        else if setLacks (versionIncludeSet s) (version entry) then False
        else matchesSearch entry (searchTerms s)) (entries s)"

section \<open>The navigation state codec\<close>

text \<open>
  A \<^verbatim>\<open>URLSearchParams\<close> object is its list of pairs: \<^verbatim>\<open>get\<close> reads the first value of a
  key, \<^verbatim>\<open>set\<close> overwrites the first pair of the key and drops its later ones, or appends.
\<close>

type_synonym URLSearchParams = "(string \<times> string) list"

definition paramsGet :: "URLSearchParams \<Rightarrow> string \<Rightarrow> string option" where
  "paramsGet sp k = map_of sp k"

fun paramsSet :: "string \<Rightarrow> string \<Rightarrow> URLSearchParams \<Rightarrow> URLSearchParams" where
  "paramsSet k v [] = [(k, v)]"
| "paramsSet k v (p # ps) =
     (if fst p = k then (k, v) # filter (\<lambda>r. fst r \<noteq> k) ps else p # paramsSet k v ps)"

definition parseListParam :: "string option \<Rightarrow> string list" where
  "parseListParam raw =
     (case raw of
        None \<Rightarrow> []
      | Some r \<Rightarrow> if r = [] then []
                 else filter (\<lambda>t. t \<noteq> []) (map trim (splitOn CHR '','' r)))"

definition listToParam :: "string list \<Rightarrow> string option" where
  "listToParam values = (if values = [] then None else Some (joinWith '','' values))"

text \<open>\<^verbatim>\<open>if (v) params.set(k, v)\<close> for a string or null \<open>v\<close>: the empty string is falsy.\<close>

definition setIfTruthy :: "string \<Rightarrow> string option \<Rightarrow> URLSearchParams \<Rightarrow> URLSearchParams" where
  "setIfTruthy k v params =
     (case v of None \<Rightarrow> params | Some x \<Rightarrow> if x = [] then params else paramsSet k x params)"

definition sortKeyString :: "SortKey \<Rightarrow> string" where
  "sortKeyString key = (case key of Newest \<Rightarrow> ''newest'' | Oldest \<Rightarrow> ''oldest'' | Az \<Rightarrow> ''az'')"

definition buildParams :: "int option \<Rightarrow> App \<Rightarrow> URLSearchParams" where
  "buildParams indexOverride s =
     (let params = [];
          params = (if trim (q s) \<noteq> [] then paramsSet ''q'' (q s) params else params);
          params = (if sortKey s \<noteq> Newest then paramsSet ''sort'' (sortKeyString (sortKey s)) params
                    else params);
          vInc = listToParam (versionIncludes s);
          vExc = listToParam (versionExcludes s);
          aInc = listToParam (authorIncludes s);
          aExc = listToParam (authorExcludes s);
          params = setIfTruthy ''vInc'' vInc params;
          params = setIfTruthy ''vExc'' vExc params;
          params = setIfTruthy ''aInc'' aInc params;
          params = setIfTruthy ''aExc'' aExc params;
          params = setIfTruthy ''preview'' (map_option entry_id (preview s)) params;
          idxVal = (case indexOverride of Some i \<Rightarrow> i | None \<Rightarrow> anchorIndex s)
      in paramsSet ''idx'' (intToString (max 0 idxVal)) params)"

text \<open>
  \<^verbatim>\<open>applyParams\<close> runs on mount and on every \<^verbatim>\<open>popstate\<close>, on the state the application
  is in at that moment. The sort key is written only when the parameter is one of the
  three names.
\<close>

definition applyParams :: "URLSearchParams \<Rightarrow> App \<Rightarrow> App" where
  "applyParams sp s =
     (let sortParam = paramsGet sp ''sort'';
          scrollVal = paramsGet sp ''idx''
      in s\<lparr> restoringRef := True,
             q := (case paramsGet sp ''q'' of None \<Rightarrow> [] | Some v \<Rightarrow> v),
             sortKey := (if sortParam = Some ''newest'' then Newest
                         else if sortParam = Some ''oldest'' then Oldest
                         else if sortParam = Some ''az'' then Az
                         else sortKey s),
             versionIncludes := parseListParam (paramsGet sp ''vInc''),
             versionExcludes := parseListParam (paramsGet sp ''vExc''),
             authorIncludes := parseListParam (paramsGet sp ''aInc''),
             authorExcludes := parseListParam (paramsGet sp ''aExc''),
             pendingPreviewId := paramsGet sp ''preview'',
             pendingIndex := (case scrollVal of
                                None \<Rightarrow> None
                              | Some v \<Rightarrow> if v = [] then None
                                         else Some (case parseInt v of None \<Rightarrow> 0 | Some n \<Rightarrow> n)) \<rparr>)"

text \<open>The zero-delay timer that \<^verbatim>\<open>applyParams\<close> leaves behind.\<close>

definition applyParamsTimeout :: "App \<Rightarrow> App" where
  "applyParamsTimeout s = (if pendingIndex s = None then s\<lparr> restoringRef := False \<rparr> else s)"

text \<open>The effect that resolves a pending preview id once entries are there.\<close>

definition resolvePreview :: "App \<Rightarrow> App" where
  "resolvePreview s =
     (case pendingPreviewId s of
        None \<Rightarrow> s
      | Some pid \<Rightarrow>
          if pid = [] \<or> entries s = [] then s
          else (case find (\<lambda>e. entry_id e = pid \<or> file_name e = pid) (entries s) of
                  Some m \<Rightarrow> s\<lparr> preview := Some m, pendingPreviewId := None \<rparr>
                | None \<Rightarrow> s\<lparr> pendingPreviewId := None \<rparr>))"

section \<open>The windowing engine\<close>

text \<open>
  The effects take the current view (\<^verbatim>\<open>filtered\<close>), the column count and the row height
  as arguments. Pixel quantities are real numbers. What an effect hands to the browser
  for later is returned as a list of deferred actions.
\<close>

datatype Deferred = ScrollTo real | ClearRestoringAfter nat

text \<open>\<^verbatim>\<open>getCols\<close>, from the inner width of the window (none when there is no window).\<close>

definition getCols :: "real option \<Rightarrow> int" where
  "getCols innerWidth =
     (case innerWidth of
        None \<Rightarrow> 1
      | Some w \<Rightarrow> if w \<ge> 1536 then 4 else if w \<ge> 1280 then 3 else if w \<ge> 640 then 2 else 1)"

definition approxRowHeight :: "real option \<Rightarrow> real" where
  "approxRowHeight measuredCardHeight =
     (case measuredCardHeight of None \<Rightarrow> 360 | Some h \<Rightarrow> if h = 0 then 360 else h) + ROW_GAP"

text \<open>The two effects on \<^verbatim>\<open>[filtered.length]\<close>: the reset and the clamp.\<close>

definition resetEffect :: "App \<Rightarrow> App" where
  "resetEffect s = (if pendingIndex s \<noteq> None then s else s\<lparr> windowStart := 0, anchorIndex := 0 \<rparr>)"

definition clampEffect :: "LitematicEntry list \<Rightarrow> App \<Rightarrow> App" where
  "clampEffect view s =
     s\<lparr> windowStart := min (windowStart s) (max 0 (int (length view) - 1)) \<rparr>"

text \<open>\<^verbatim>\<open>handleScroll\<close>, without its write to the address bar.\<close>

definition handleScroll :: "real \<Rightarrow> real \<Rightarrow> real \<Rightarrow> real \<Rightarrow> int \<Rightarrow> App \<Rightarrow> App" where
  "handleScroll scrollY offset gridTop rowHeight cols s =
     (if restoringRef s then s
      else (let rel = max 0 (scrollY + offset - gridTop);
                row = \<lfloor>rel / rowHeight\<rfloor>;
                withinRow = rel - real_of_int row * rowHeight;
                anchorRow = (if withinRow > rowHeight / 2 then row + 1 else row);
                anchor = max 0 (anchorRow * cols);
                start = max 0 (anchor - BUFFER_ROWS * cols)
            in s\<lparr> anchorIndex := anchor, windowStart := start \<rparr>))"

text \<open>The values derived at render time.\<close>

definition windowEnd :: "LitematicEntry list \<Rightarrow> App \<Rightarrow> int" where
  "windowEnd view s = min (int (length view)) (windowStart s + WINDOW_SIZE)"

definition topRows :: "int \<Rightarrow> App \<Rightarrow> int" where
  "topRows cols s = \<lfloor>real_of_int (windowStart s) / real_of_int cols\<rfloor>"

definition bottomRows :: "LitematicEntry list \<Rightarrow> int \<Rightarrow> App \<Rightarrow> int" where
  "bottomRows view cols s =
     \<lceil>real_of_int (int (length view) - windowEnd view s) / real_of_int cols\<rceil>"

definition topSpacer :: "real \<Rightarrow> int \<Rightarrow> App \<Rightarrow> real" where
  "topSpacer rowHeight cols s = max 0 (real_of_int (topRows cols s) * rowHeight)"

definition bottomSpacer :: "LitematicEntry list \<Rightarrow> real \<Rightarrow> int \<Rightarrow> App \<Rightarrow> real" where
  "bottomSpacer view rowHeight cols s = max 0 (real_of_int (bottomRows view cols s) * rowHeight)"

section \<open>Restoration of a scroll position\<close>

text \<open>The effect that consumes \<^verbatim>\<open>pendingIndex\<close>.\<close>

definition restoreEffect :: "LitematicEntry list \<Rightarrow> int \<Rightarrow> App \<Rightarrow> App \<times> Deferred list" where
  "restoreEffect view cols s =
     (case pendingIndex s of
        None \<Rightarrow> (s, [])
      | Some p \<Rightarrow>
          if view = [] then (s, [])
          else (let idx = max 0 (min (int (length view) - 1) p) in
                if idx = 0
                then (s\<lparr> pendingIndex := None, restoringRef := True \<rparr>,
                      [ScrollTo 0, ClearRestoringAfter 50])
                else (let start = max 0 (idx - BUFFER_ROWS * cols);
                          tid = entry_id (view ! nat idx)
                      in (s\<lparr> anchorIndex := idx, windowStart := start,
                             pendingScrollId := (if tid = [] then None else Some tid),
                             pendingIndex := None, restoringRef := True \<rparr>, []))))"

text \<open>
  The selector of the card of an entry, as \<^verbatim>\<open>tryScroll\<close> writes it: the id between double
  quotes, every double quote of the id (code 0x22) preceded by a backslash (code 0x5C),
  and nothing else escaped.
\<close>

definition escapeQuotes :: "string \<Rightarrow> string" where
  "escapeQuotes targetId =
     concat (map (\<lambda>c. if c = CHR 0x22 then [CHR 0x5C, CHR 0x22] else [c]) targetId)"

definition selectorOf :: "string \<Rightarrow> string" where
  "selectorOf targetId = ''[data-entry-id='' @ [CHR 0x22] @ escapeQuotes targetId @ [CHR 0x22] @ '']''"

text \<open>
  \<^verbatim>\<open>document.querySelector\<close> throws a \<^verbatim>\<open>SyntaxError\<close> when its argument is no selector. In
  an attribute selector \<^verbatim>\<open>[data-entry-id="v"]\<close> whose quoted value \<open>v\<close> holds a line feed, and
  neither a backslash nor a double quote, the string token opened by the first quote ends
  badly at the line feed, so the argument is no selector: \<open>brokenString\<close>. On every other
  argument the document \<open>doc\<close> decides, for each animation frame, whether the call throws,
  returns \<^verbatim>\<open>null\<close>, or returns an element, given by its top relative to the page, less the
  header.
\<close>

datatype DOMException = SyntaxError

type_synonym Document = "string \<Rightarrow> nat \<Rightarrow> DOMException + real option"

definition quotedValue :: "string \<Rightarrow> string option" where
  "quotedValue sel =
     (let opening = ''[data-entry-id='' @ [CHR 0x22]; closing = [CHR 0x22] @ '']'' in
      if prefix opening sel \<and> suffix closing (drop (length opening) sel)
      then Some (take (length sel - length opening - length closing) (drop (length opening) sel))
      else None)"

definition brokenString :: "string \<Rightarrow> bool" where
  "brokenString sel =
     (case quotedValue sel of
        None \<Rightarrow> False
      | Some v \<Rightarrow> CHR 0x0A \<in> set v \<and> CHR 0x5C \<notin> set v \<and> CHR 0x22 \<notin> set v)"

definition querySelector :: "Document \<Rightarrow> string \<Rightarrow> nat \<Rightarrow> DOMException + real option" where
  "querySelector doc sel frame = (if brokenString sel then Inl SyntaxError else doc sel frame)"

text \<open>
  \<^verbatim>\<open>tryScroll\<close>: one call per animation frame, \<open>attempts\<close> the number of calls before this
  one. When \<^verbatim>\<open>querySelector\<close> throws, nothing catches the exception: the callback ends with
  the state as it is and requests no further frame (\<open>Inl\<close>). Otherwise the result is the
  state and the browser actions asked for (\<open>Inr\<close>). Both carry the number of lookups made.
\<close>

function tryScroll ::
  "Document \<Rightarrow> string \<Rightarrow> nat \<Rightarrow> App \<Rightarrow> (DOMException \<times> App \<times> nat) + (App \<times> Deferred list \<times> nat)" where
  "tryScroll doc targetId attempts s =
     (case querySelector doc (selectorOf targetId) attempts of
        Inl e \<Rightarrow> Inl (e, s, attempts + 1)
      | Inr (Some elTop) \<Rightarrow>
          Inr (s\<lparr> pendingScrollId := None \<rparr>, [ScrollTo (max 0 elTop), ClearRestoringAfter 50],
               attempts + 1)
      | Inr None \<Rightarrow>
          if attempts + 1 < 10 then tryScroll doc targetId (attempts + 1) s
          else Inr (s\<lparr> restoringRef := False \<rparr>, [], attempts + 1))"
  by pat_completeness auto
termination
  by (relation "measure (\<lambda>(doc, targetId, attempts, s). 10 - attempts)") auto

declare tryScroll.simps [simp del]

definition stateOf :: "(DOMException \<times> App \<times> nat) + (App \<times> Deferred list \<times> nat) \<Rightarrow> App" where
  "stateOf r = (case r of Inl (e, s, n) \<Rightarrow> s | Inr (s, cmds, n) \<Rightarrow> s)"

text \<open>The effect on \<^verbatim>\<open>[visible]\<close> that starts the loop, and the timer that ends a
  restoration.\<close>

definition scrollEffect ::
  "Document \<Rightarrow> App \<Rightarrow> (DOMException \<times> App \<times> nat) + (App \<times> Deferred list \<times> nat)" where
  "scrollEffect doc s =
     (case pendingScrollId s of
        None \<Rightarrow> Inr (s, [], 0)
      | Some targetId \<Rightarrow> if targetId = [] then Inr (s, [], 0) else tryScroll doc targetId 0 s)"

definition clearRestoring :: "App \<Rightarrow> App" where
  "clearRestoring s = s\<lparr> restoringRef := False \<rparr>"

section \<open>A commit after a change of the filter\<close>

text \<open>
  \<^verbatim>\<open>filtered.slice(windowStart, windowEnd)\<close>: an index below 0 counts from the end, an index
  past the end is the end, and the slice is empty when it would end before it starts.
\<close>

definition sliceIndex :: "int \<Rightarrow> int \<Rightarrow> int" where
  "sliceIndex len k = (if k < 0 then max 0 (len + k) else min k len)"

definition visible :: "LitematicEntry list \<Rightarrow> App \<Rightarrow> LitematicEntry list" where
  "visible view s =
     (let len = int (length view);
          from = sliceIndex len (windowStart s);
          upto = sliceIndex len (windowEnd view s)
      in take (nat (upto - from)) (drop (nat from) view))"

text \<open>
  When the search text or a facet list changes and the view's length with it, the effects
  whose dependencies changed run after the render, in the order of their declaration: the
  reset and the clamp (on \<^verbatim>\<open>filtered.length\<close>), the scroll effect (on the search text and
  the facet lists), which calls \<^verbatim>\<open>handleScroll\<close> at once with the scroll position of the
  page, and the restoration (on \<^verbatim>\<open>filtered.length\<close>). The queued updates of \<^verbatim>\<open>windowStart\<close>
  apply in that order, each to the result of the one before.
\<close>

definition filterCommit ::
  "LitematicEntry list \<Rightarrow> real \<Rightarrow> real \<Rightarrow> real \<Rightarrow> real \<Rightarrow> int \<Rightarrow> App \<Rightarrow> App" where
  "filterCommit view scrollY offset gridTop rowHeight cols s =
     fst (restoreEffect view cols
       (handleScroll scrollY offset gridTop rowHeight cols (clampEffect view (resetEffect s))))"

section \<open>The states the application can reach\<close>

text \<open>
  From the initial state: the user's edits of the catalog, the search text, the facet
  lists, the sort key and the preview, and the effects and timers modelled above, in any
  order and with any arguments.
\<close>

inductive reachable :: "App \<Rightarrow> bool" where
  initial: "reachable initialApp"
| user: "reachable s \<Longrightarrow>
     reachable (s\<lparr> entries := es, q := query, versionIncludes := vInc, versionExcludes := vExc,
                   authorIncludes := aInc, authorExcludes := aExc, sortKey := key,
                   preview := shown \<rparr>)"
| decode: "reachable s \<Longrightarrow> reachable (applyParams sp s)"
| decodeTimeout: "reachable s \<Longrightarrow> reachable (applyParamsTimeout s)"
| resolve: "reachable s \<Longrightarrow> reachable (resolvePreview s)"
| reset: "reachable s \<Longrightarrow> reachable (resetEffect s)"
| clamp: "reachable s \<Longrightarrow> reachable (clampEffect view s)"
| scroll: "reachable s \<Longrightarrow> reachable (handleScroll scrollY offset gridTop rowHeight cols s)"
| restore: "reachable s \<Longrightarrow> reachable (fst (restoreEffect view cols s))"
| locate: "reachable s \<Longrightarrow> reachable (stateOf (scrollEffect doc s))"
| release: "reachable s \<Longrightarrow> reachable (clearRestoring s)"

section \<open>The contracts in the specification's words\<close>

text \<open>
  The definitions of this section say what the specification's words mean on their own
  terms; none of them is used by the model of the code above.

  White space, by character code: the space, and the tab, line feed, vertical tab, form
  feed and carriage return.
\<close>

definition blank :: "char \<Rightarrow> bool" where
  "blank c = ((of_char c :: nat) = 32 \<or> (9 \<le> (of_char c :: nat) \<and> (of_char c :: nat) \<le> 13))"

text \<open>The white-space separated terms of a text: its maximal runs of other characters.\<close>

function termsOf :: "string \<Rightarrow> string list" where
  "termsOf s =
     (case dropWhile blank s of
        [] \<Rightarrow> []
      | c # cs \<Rightarrow> (c # takeWhile (\<lambda>x. \<not> blank x) cs) # termsOf (dropWhile (\<lambda>x. \<not> blank x) cs))"
  by pat_completeness auto
termination
proof (relation "measure length")
  show "wf (measure length)" by simp
next
  fix s :: string and c cs
  assume "dropWhile blank s = c # cs"
  then have "length cs < length s"
    by (metis length_Cons length_dropWhile_le less_Suc_eq_le not_less_eq)
  moreover have "length (dropWhile (\<lambda>x. \<not> blank x) cs) \<le> length cs"
    by (rule length_dropWhile_le)
  ultimately show "(dropWhile (\<lambda>x. \<not> blank x) cs, s) \<in> measure length" by simp
qed

declare termsOf.simps [simp del]

text \<open>Case, by the alphabet: a capital letter is lower-cased to the letter at the same
  place of the lower-case alphabet, every other character is left alone.\<close>

definition upperCaseLetters :: string where
  "upperCaseLetters = ''ABCDEFGHIJKLMNOPQRSTUVWXYZ''"

definition lowerCaseLetters :: string where
  "lowerCaseLetters = ''abcdefghijklmnopqrstuvwxyz''"

definition lowerLetter :: "char \<Rightarrow> char" where
  "lowerLetter c =
     (case map_of (zip upperCaseLetters lowerCaseLetters) c of Some l \<Rightarrow> l | None \<Rightarrow> c)"

definition lowerCased :: "string \<Rightarrow> string" where
  "lowerCased s = map lowerLetter s"

text \<open>\<open>t\<close> occurs in \<open>hay\<close> as a substring, case ignored.\<close>

definition occursIgnoringCase :: "string \<Rightarrow> string \<Rightarrow> bool" where
  "occursIgnoringCase t hay =
     (\<exists>ps sub ss. hay = ps @ sub @ ss \<and> lowerCased sub = lowerCased t)"

text \<open>The composite haystack of an entry: its file name, author, version and size, a
  space between them.\<close>

definition compositeHaystack :: "LitematicEntry \<Rightarrow> string" where
  "compositeHaystack entry =
     file_name entry @ '' '' @ author entry @ '' '' @ version entry @ '' '' @ size_str entry"

text \<open>
  An entry survives when it is in no non-empty exclude set, is in every non-empty include
  set, and every lower-cased search term occurs in its composite haystack, case ignored.
\<close>

definition survives :: "App \<Rightarrow> LitematicEntry \<Rightarrow> bool" where
  "survives s entry =
     (\<not> (versionExcludes s \<noteq> [] \<and> version entry \<in> set (versionExcludes s)) \<and>
      \<not> (authorExcludes s \<noteq> [] \<and> author entry \<in> set (authorExcludes s)) \<and>
      \<not> (versionIncludes s \<noteq> [] \<and> version entry \<notin> set (versionIncludes s)) \<and>
      \<not> (authorIncludes s \<noteq> [] \<and> author entry \<notin> set (authorIncludes s)) \<and>
      (\<forall>t \<in> set (termsOf (lowerCased (q s))). occursIgnoringCase t (compositeHaystack entry)))"


text \<open>
  What the platform promises of a collation: it is a consistent comparator (total and
  transitive as an order), and with sensitivity \<open>base\<close> it ignores case.
\<close>

definition consistentComparator :: "(string \<Rightarrow> string \<Rightarrow> int) \<Rightarrow> bool" where
  "consistentComparator lc =
     ((\<forall>a b. lc a b \<le> 0 \<or> lc b a \<le> 0) \<and>
      (\<forall>a b c. lc a b \<le> 0 \<longrightarrow> lc b c \<le> 0 \<longrightarrow> lc a c \<le> 0))"

definition ignoresCase :: "(string \<Rightarrow> string \<Rightarrow> int) \<Rightarrow> bool" where
  "ignoresCase lc = (\<forall>a b. toLowerCase a = toLowerCase b \<longrightarrow> lc a b = 0)"

text \<open>A facet value that the comma-separated list encoding can carry: not empty, without a
  comma, without white space at either end.\<close>

definition plainToken :: "string \<Rightarrow> bool" where
  "plainToken v = (v \<noteq> [] \<and> CHR '','' \<notin> set v \<and> trim v = v)"

text \<open>The target of a restoration, brought into the view.\<close>

definition targetIndex :: "LitematicEntry list \<Rightarrow> int \<Rightarrow> int" where
  "targetIndex view p = max 0 (min (int (length view) - 1) p)"

section \<open>Sample data\<close>

text \<open>A collation for the examples: the order of the code units of the case-folded names.\<close>

definition codeUnitCompare :: "string \<Rightarrow> string \<Rightarrow> int" where
  "codeUnitCompare a b =
     (if toLowerCase a < toLowerCase b then - 1 else if toLowerCase a = toLowerCase b then 0 else 1)"

definition entry120 :: LitematicEntry where
  "entry120 =
     \<lparr> file_name = ''Farm.litematic'', size_str = ''10x5x10'', version = ''1.20'',
       timeCreated = TimeNumber 100, author = ''alice'',
       entry_id = ''Farm.litematic-0'', createdAt = 100 \<rparr>"

definition entry121 :: LitematicEntry where
  "entry121 =
     \<lparr> file_name = ''castle.litematic'', size_str = ''30x20x30'', version = ''1.21'',
       timeCreated = TimeString ''200'', author = ''bob'',
       entry_id = ''castle.litematic-1'', createdAt = 200 \<rparr>"



definition scenarioA :: App where
  "scenarioA = initialApp\<lparr> entries := [entry121, entry120] \<rparr>"

definition facetState :: App where
  "facetState = initialApp\<lparr> entries := [entry120, entry121], authorExcludes := [''alice''] \<rparr>"

definition commaState :: App where
  "commaState = initialApp\<lparr> authorIncludes := [''Doe, John''] \<rparr>"

definition sharedState :: App where
  "sharedState =
     initialApp\<lparr> q := ''castle'', sortKey := Az, authorIncludes := [''alice'', ''bob''],
       preview := Some entry121, anchorIndex := 42 \<rparr>"

definition wideView :: "LitematicEntry list" where
  "wideView = replicate 500 entry120"

definition shortView :: "LitematicEntry list" where
  "shortView = replicate 10 entry120"

definition longView :: "LitematicEntry list" where
  "longView = replicate 300 entry121"

text \<open>A link with \<open>idx=250\<close> opened on a view of 300 entries.\<close>

definition deepLink :: App where
  "deepLink = fst (restoreEffect longView 3 (applyParams [(''idx'', ''250'')] initialApp))"

text \<open>
  A catalog of 500 entries, two of them of a version 1.2x; the page scrolled 84 rows down
  its view of three columns, no card measured yet; and the search \<open>1.2\<close> typed there.
\<close>

definition towerEntry :: LitematicEntry where
  "towerEntry =
     \<lparr> file_name = ''tower.litematic'', size_str = ''3x3x9'', version = ''1.19'',
       timeCreated = TimeNumber 50, author = ''carol'',
       entry_id = ''tower.litematic-2'', createdAt = 50 \<rparr>"

definition bigCatalog :: "LitematicEntry list" where
  "bigCatalog = [entry120, entry121] @ replicate 498 towerEntry"

definition scrolledDeep :: App where
  "scrolledDeep =
     handleScroll 31584 0 0 (approxRowHeight None) 3 (initialApp\<lparr> entries := bigCatalog \<rparr>)"

definition narrowed :: App where
  "narrowed = scrolledDeep\<lparr> q := ''1.2'' \<rparr>"

definition narrowView :: "LitematicEntry list" where
  "narrowView = filtered codeUnitCompare narrowed"

text \<open>A catalog whose third entry has a line feed in its file name, and a link to it.\<close>

definition newlineCatalog :: "RawLitematicEntry list" where
  "newlineCatalog =
     [\<lparr> file_name = ''a.litematic'', size_str = ''1x1x1'', version = ''1.20'',
        timeCreated = TimeNumber 300, author = ''alice'' \<rparr>,
      \<lparr> file_name = ''b.litematic'', size_str = ''1x1x1'', version = ''1.20'',
        timeCreated = TimeNumber 200, author = ''alice'' \<rparr>,
      \<lparr> file_name = ''two'' @ [CHR 0x0A] @ ''lines'', size_str = ''2x2x2'', version = ''1.21'',
        timeCreated = TimeNumber 100, author = ''bob'' \<rparr>]"

definition newlineLink :: App where
  "newlineLink = applyParams [(''idx'', ''2'')] (initialApp\<lparr> entries := normalized newlineCatalog \<rparr>)"

definition newlineRestore :: App where
  "newlineRestore = fst (restoreEffect (filtered codeUnitCompare newlineLink) 3 newlineLink)"

definition rawCatalog :: "RawLitematicEntry list" where
  "rawCatalog =
     [\<lparr> file_name = ''a'', size_str = ''1x1x1'', version = ''1.20'',
        timeCreated = TimeNumber 100, author = ''alice'' \<rparr>,
      \<lparr> file_name = ''a'', size_str = ''1x1x1'', version = ''1.20'',
        timeCreated = TimeString ''200'', author = ''alice'' \<rparr>,
      \<lparr> file_name = ''a-1'', size_str = ''2x2x2'', version = ''1.21'',
        timeCreated = TimeString ''soon'', author = ''bob'' \<rparr>]"

section \<open>Properties of the filter\<close>

lemma strIncludes_iff: "strIncludes hay t \<longleftrightarrow> (\<exists>ps ss. hay = ps @ t @ ss)"
proof (induction hay t rule: strIncludes.induct)
  case (1 hay)
  show ?case by (auto intro: exI[of _ "[]"])
next
  case (2 t ts)
  show ?case by simp
next
  case (3 h hs t ts)
  have "sublist (t # ts) (h # hs) \<longleftrightarrow> prefix (t # ts) (h # hs) \<or> sublist (t # ts) hs"
    by (rule sublist_Cons_right)
  with 3 show ?case by (simp add: sublist_def)
qed

lemma blank_codes: "list_all (\<lambda>n. isSpace (char_of n)) [9, 10, 11, 12, 13, 32 :: nat]"
  by code_simp

lemma isSpace_blank: "isSpace c = blank c"
proof
  assume "isSpace c"
  then show "blank c" by (auto simp: isSpace_def blank_def)
next
  assume b: "blank c"
  have "(of_char c :: nat) \<in> set [9, 10, 11, 12, 13, 32]"
    using b unfolding blank_def by auto
  with blank_codes have "isSpace (char_of (of_char c :: nat))"
    unfolding list_all_iff by blast
  then show "isSpace c" by simp
qed

lemma isSpace_eq: "isSpace = blank"
  by (rule ext) (rule isSpace_blank)

lemma upper_pairs:
  "list_all (\<lambda>(u, l). toLowerChar u = l) (zip upperCaseLetters lowerCaseLetters)"
  by code_simp

lemma upper_codes:
  "list_all (\<lambda>u. 65 \<le> (of_char u :: nat) \<and> (of_char u :: nat) \<le> 90) upperCaseLetters"
  by (simp add: upperCaseLetters_def)

lemma upper_members: "list_all (\<lambda>n. char_of n \<in> set upperCaseLetters) [65 ..< 91 :: nat]"
  by code_simp

lemma letters_shape:
  "distinct upperCaseLetters" "length upperCaseLetters = length lowerCaseLetters"
  by (simp_all add: upperCaseLetters_def lowerCaseLetters_def)

lemma toLowerChar_lowerLetter: "toLowerChar c = lowerLetter c"
proof (cases "65 \<le> (of_char c :: nat) \<and> (of_char c :: nat) \<le> 90")
  case True
  then have "(of_char c :: nat) \<in> {65 ..< 91}" by simp
  then have "(of_char c :: nat) \<in> set [65 ..< 91]" by (simp only: set_upt)
  with upper_members have "char_of (of_char c :: nat) \<in> set upperCaseLetters"
    unfolding list_all_iff by blast
  then have "c \<in> set upperCaseLetters" by simp
  then obtain l where l: "(c, l) \<in> set (zip upperCaseLetters lowerCaseLetters)"
    using letters_shape(2) by (metis in_set_impl_in_set_zip1)
  have "distinct (map fst (zip upperCaseLetters lowerCaseLetters))"
    using letters_shape by simp
  then have "map_of (zip upperCaseLetters lowerCaseLetters) c = Some l"
    using l by (rule map_of_is_SomeI)
  moreover have "toLowerChar c = l"
    using upper_pairs l unfolding list_all_iff by auto
  ultimately show ?thesis by (simp add: lowerLetter_def)
next
  case False
  have "c \<notin> set upperCaseLetters"
    using upper_codes False unfolding list_all_iff by blast
  then have "c \<notin> fst ` set (zip upperCaseLetters lowerCaseLetters)"
    by (auto elim: in_set_zipE)
  then have "map_of (zip upperCaseLetters lowerCaseLetters) c = None"
    by (rule map_of_eq_None_iff[THEN iffD2])
  with False show ?thesis by (auto simp: toLowerChar_def lowerLetter_def Let_def)
qed

lemma toLowerCase_lowerCased: "toLowerCase s = lowerCased s"
  by (simp add: toLowerCase_def lowerCased_def toLowerChar_lowerLetter)

lemma termsOf_unfold:
  "termsOf s =
     (case dropWhile isSpace s of
        [] \<Rightarrow> []
      | c # cs \<Rightarrow> (c # takeWhile (\<lambda>x. \<not> isSpace x) cs) # termsOf (dropWhile (\<lambda>x. \<not> isSpace x) cs))"
  by (subst termsOf.simps) (simp only: isSpace_eq)

lemma occursIgnoringCase_code:
  "occursIgnoringCase t hay =
     (\<exists>ps sub ss. hay = ps @ sub @ ss \<and> toLowerCase sub = toLowerCase t)"
  by (simp add: occursIgnoringCase_def toLowerCase_lowerCased)

lemma toLowerChar_idem: "toLowerChar (toLowerChar c) = toLowerChar c"
  by (auto simp: toLowerChar_def Let_def)

lemma toLowerCase_idem: "toLowerCase (toLowerCase s) = toLowerCase s"
  by (simp add: toLowerCase_def toLowerChar_idem)

lemma termsOf_Nil: "termsOf [] = []"
  by (simp add: termsOf_unfold)

lemma termsOf_space: "isSpace c \<Longrightarrow> termsOf (c # cs) = termsOf cs"
  by (simp add: termsOf_unfold[of "c # cs"] termsOf_unfold[of cs])

lemma termsOf_nonspace:
  "\<not> isSpace c \<Longrightarrow>
   termsOf (c # cs) = (c # takeWhile (\<lambda>x. \<not> isSpace x) cs) # termsOf (dropWhile (\<lambda>x. \<not> isSpace x) cs)"
  by (simp add: termsOf_unfold[of "c # cs"])

lemma termsOf_dropWhile: "termsOf (dropWhile isSpace s) = termsOf s"
  by (induction s) (simp_all add: termsOf_space)

lemma splitWs_words_aux:
  assumes "splitWs x = takeWhile (\<lambda>c. \<not> isSpace c) x # ws"
    and "filter (\<lambda>w. w \<noteq> []) ws = termsOf (dropWhile (\<lambda>c. \<not> isSpace c) x)"
    and "x = [] \<or> \<not> isSpace (hd x)"
  shows "filter (\<lambda>w. w \<noteq> []) (splitWs x) = termsOf x"
proof (cases x)
  case Nil
  then show ?thesis by (simp add: termsOf_Nil)
next
  case (Cons d ds)
  with assms show ?thesis by (simp add: termsOf_nonspace)
qed

lemma dropWhile_head: "dropWhile P xs = [] \<or> \<not> P (hd (dropWhile P xs))"
  by (metis hd_dropWhile)

lemma splitWs_shape:
  "\<exists>ws. splitWs s = takeWhile (\<lambda>x. \<not> isSpace x) s # ws \<and>
     filter (\<lambda>w. w \<noteq> []) ws = termsOf (dropWhile (\<lambda>x. \<not> isSpace x) s)"
proof (induction s rule: splitWs.induct)
  case 1
  show ?case by (simp add: termsOf_Nil)
next
  case (2 c cs)
  show ?case
  proof (cases "isSpace c")
    case True
    define x where "x = dropWhile isSpace cs"
    from 2(1)[OF True] obtain ws where
      ws: "splitWs x = takeWhile (\<lambda>x. \<not> isSpace x) x # ws"
          "filter (\<lambda>w. w \<noteq> []) ws = termsOf (dropWhile (\<lambda>x. \<not> isSpace x) x)"
      unfolding x_def by blast
    have "x = [] \<or> \<not> isSpace (hd x)"
      unfolding x_def by (rule dropWhile_head)
    with ws have "filter (\<lambda>w. w \<noteq> []) (splitWs x) = termsOf x"
      by (rule splitWs_words_aux)
    moreover have "termsOf x = termsOf cs"
      unfolding x_def by (rule termsOf_dropWhile)
    ultimately show ?thesis using True by (simp add: termsOf_space x_def)
  next
    case False
    from 2(2)[OF False] obtain ws where
      "splitWs cs = takeWhile (\<lambda>x. \<not> isSpace x) cs # ws"
      "filter (\<lambda>w. w \<noteq> []) ws = termsOf (dropWhile (\<lambda>x. \<not> isSpace x) cs)"
      by blast
    then show ?thesis using False by simp
  qed
qed

lemma splitWs_words: "filter (\<lambda>w. w \<noteq> []) (splitWs s) = termsOf s"
proof -
  obtain ws where
    ws: "splitWs s = takeWhile (\<lambda>x. \<not> isSpace x) s # ws"
        "filter (\<lambda>w. w \<noteq> []) ws = termsOf (dropWhile (\<lambda>x. \<not> isSpace x) s)"
    using splitWs_shape by blast
  show ?thesis
  proof (cases s)
    case Nil
    with ws show ?thesis by (simp add: termsOf_Nil)
  next
    case (Cons c cs)
    show ?thesis
    proof (cases "isSpace c")
      case True
      with ws Cons show ?thesis by simp
    next
      case False
      with ws Cons show ?thesis by (simp add: termsOf_nonspace)
    qed
  qed
qed


lemma splitWs_chars: "w \<in> set (splitWs s) \<Longrightarrow> set w \<subseteq> set s"
proof (induction s arbitrary: w rule: splitWs.induct)
  case 1
  then show ?case by simp
next
  case (2 c cs)
  show ?case
  proof (cases "isSpace c")
    case True
    with 2(3) have "w = [] \<or> w \<in> set (splitWs (dropWhile isSpace cs))" by simp
    then show ?thesis
    proof
      assume "w = []" then show ?thesis by simp
    next
      assume "w \<in> set (splitWs (dropWhile isSpace cs))"
      from 2(1)[OF True this] have "set w \<subseteq> set (dropWhile isSpace cs)" .
      also have "\<dots> \<subseteq> set cs" by (auto dest: set_dropWhileD)
      finally show ?thesis by auto
    qed
  next
    case False
    obtain v vs where vs: "splitWs cs = v # vs"
      using splitWs_shape[of cs] by blast
    with False 2(3) have "w = c # v \<or> w \<in> set vs" by simp
    then show ?thesis
    proof
      assume "w = c # v"
      moreover have "set v \<subseteq> set cs" using 2(2)[OF False, of v] vs by simp
      ultimately show ?thesis by auto
    next
      assume "w \<in> set vs"
      then have "set w \<subseteq> set cs" using 2(2)[OF False, of w] vs by simp
      then show ?thesis by auto
    qed
  qed
qed

lemma searchTerms_lower: "t \<in> set (searchTerms s) \<Longrightarrow> toLowerCase t = t"
proof -
  assume "t \<in> set (searchTerms s)"
  then have "t \<in> set (splitWs (toLowerCase (q s)))" by (simp add: searchTerms_def)
  then have "set t \<subseteq> set (toLowerCase (q s))" by (rule splitWs_chars)
  then have "\<forall>c \<in> set t. toLowerChar c = c"
    by (auto simp: toLowerCase_def toLowerChar_idem)
  then show ?thesis by (simp add: toLowerCase_def map_idI)
qed

lemma strIncludes_lower:
  assumes "toLowerCase t = t"
  shows "strIncludes (toLowerCase hay) t \<longleftrightarrow> occursIgnoringCase t hay"
proof
  assume "strIncludes (toLowerCase hay) t"
  then obtain ps ss where "map toLowerChar hay = ps @ t @ ss"
    by (auto simp: strIncludes_iff toLowerCase_def)
  then obtain us vs where uv: "hay = us @ vs" "map toLowerChar vs = t @ ss"
    by (metis map_eq_append_conv)
  then obtain sub ss' where "vs = sub @ ss'" "map toLowerChar sub = t"
    by (metis map_eq_append_conv)
  with uv have "hay = us @ sub @ ss'" "map toLowerChar sub = t" by simp_all
  with assms show "occursIgnoringCase t hay"
    unfolding occursIgnoringCase_code toLowerCase_def by metis
next
  assume "occursIgnoringCase t hay"
  then obtain ps sub ss where "hay = ps @ sub @ ss" "toLowerCase sub = t"
    using assms by (auto simp: occursIgnoringCase_code)
  then have "toLowerCase hay = toLowerCase ps @ t @ toLowerCase ss"
    by (simp add: toLowerCase_def)
  then show "strIncludes (toLowerCase hay) t"
    unfolding strIncludes_iff by blast
qed

lemma matchesSearch_iff:
  "matchesSearch entry (searchTerms s) \<longleftrightarrow>
   (\<forall>t \<in> set (termsOf (lowerCased (q s))). occursIgnoringCase t (compositeHaystack entry))"
proof -
  have eq: "termsOf (lowerCased (q s)) = searchTerms s"
    by (simp add: searchTerms_def splitWs_words toLowerCase_lowerCased)
  have "matchesSearch entry (searchTerms s) \<longleftrightarrow>
        (\<forall>t \<in> set (searchTerms s). strIncludes (toLowerCase (compositeHaystack entry)) t)"
    by (auto simp: matchesSearch_def compositeHaystack_def Let_def list_all_iff)
  also have "\<dots> \<longleftrightarrow>
        (\<forall>t \<in> set (searchTerms s). occursIgnoringCase t (compositeHaystack entry))"
    using strIncludes_lower[OF searchTerms_lower] by blast
  finally show ?thesis by (simp add: eq)
qed

lemma filterKeeps_survives: "filterKeeps s entry \<longleftrightarrow> survives s entry"
  unfolding filterKeeps_def survives_def matchesSearch_iff
  by (auto simp: setHas_def setLacks_def setOrNull_def versionExcludeSet_def
      authorExcludeSet_def versionIncludeSet_def authorIncludeSet_def)

lemma mset_insertBy: "mset (insertBy cmp x xs) = add_mset x (mset xs)"
  by (induction xs) auto

lemma mset_sortBy: "mset (sortBy cmp xs) = mset xs"
  by (induction xs) (simp_all add: sortBy_def mset_insertBy)


lemma filtered_mset: "mset (filtered lc s) = mset (filter (filterKeeps s) (entries s))"
  by (simp add: filtered_def mset_sortBy)













section \<open>Properties of the sort\<close>

lemma set_insertBy: "set (insertBy cmp x xs) = insert x (set xs)"
  by (induction xs) auto

lemma sorted_insertBy:
  assumes total: "\<And>a b. cmp a b \<le> 0 \<or> cmp b a \<le> 0"
    and trans: "\<And>a b c. cmp a b \<le> 0 \<Longrightarrow> cmp b c \<le> 0 \<Longrightarrow> cmp a c \<le> 0"
    and "sorted_wrt (\<lambda>a b. cmp a b \<le> 0) xs"
  shows "sorted_wrt (\<lambda>a b. cmp a b \<le> 0) (insertBy cmp x xs)"
  using assms(3)
proof (induction xs)
  case Nil
  show ?case by simp
next
  case (Cons y ys)
  show ?case
  proof (cases "cmp x y \<le> 0")
    case True
    have "\<forall>z \<in> set ys. cmp x z \<le> 0"
      using Cons.prems True trans by auto
    with True Cons.prems show ?thesis by simp
  next
    case False
    then have "cmp y x \<le> 0" using total[of x y] by simp
    with False Cons show ?thesis by (auto simp: set_insertBy)
  qed
qed

lemma sorted_sortBy:
  assumes "\<And>a b. cmp a b \<le> 0 \<or> cmp b a \<le> 0"
    and "\<And>a b c. cmp a b \<le> 0 \<Longrightarrow> cmp b c \<le> 0 \<Longrightarrow> cmp a c \<le> 0"
  shows "sorted_wrt (\<lambda>a b. cmp a b \<le> 0) (sortBy cmp xs)"
proof (induction xs)
  case Nil
  show ?case by (simp add: sortBy_def)
next
  case (Cons x xs)
  have "sortBy cmp (x # xs) = insertBy cmp x (sortBy cmp xs)"
    by (simp add: sortBy_def)
  with Cons sorted_insertBy[OF assms] show ?case by simp
qed

lemma filtered_oldest:
  assumes "sortKey s = Oldest"
  shows "sorted_wrt (\<lambda>a b. createdAt a \<le> createdAt b) (filtered lc s)"
proof -
  have "sorted_wrt (\<lambda>a b. compareEntries lc Oldest a b \<le> 0)
          (sortBy (compareEntries lc Oldest) (filter (filterKeeps s) (entries s)))"
    by (rule sorted_sortBy) (auto simp: compareEntries_def)
  with assms show ?thesis by (simp add: filtered_def compareEntries_def)
qed

lemma filtered_newest:
  assumes "sortKey s = Newest"
  shows "sorted_wrt (\<lambda>a b. createdAt b \<le> createdAt a) (filtered lc s)"
proof -
  have "sorted_wrt (\<lambda>a b. compareEntries lc Newest a b \<le> 0)
          (sortBy (compareEntries lc Newest) (filter (filterKeeps s) (entries s)))"
    by (rule sorted_sortBy) (auto simp: compareEntries_def)
  with assms show ?thesis by (simp add: filtered_def compareEntries_def)
qed

lemma folded_le:
  assumes "consistentComparator lc" "ignoresCase lc" "lc a b \<le> 0"
  shows "lc (toLowerCase a) (toLowerCase b) \<le> 0"
proof -
  have 1: "lc (toLowerCase a) a \<le> 0"
    using assms(2) by (simp add: ignoresCase_def toLowerCase_idem)
  have 2: "lc b (toLowerCase b) \<le> 0"
    using assms(2) by (simp add: ignoresCase_def toLowerCase_idem)
  have tr: "\<And>x y z. lc x y \<le> 0 \<Longrightarrow> lc y z \<le> 0 \<Longrightarrow> lc x z \<le> 0"
    using assms(1) unfolding consistentComparator_def by blast
  from tr[OF tr[OF 1 assms(3)] 2] show ?thesis .
qed

lemma filtered_az:
  assumes "sortKey s = Az" "consistentComparator lc" "ignoresCase lc"
  shows "sorted_wrt (\<lambda>a b. lc (toLowerCase (file_name a)) (toLowerCase (file_name b)) \<le> 0)
           (filtered lc s)"
proof -
  have "sorted_wrt (\<lambda>a b. compareEntries lc Az a b \<le> 0)
          (sortBy (compareEntries lc Az) (filter (filterKeeps s) (entries s)))"
  proof (rule sorted_sortBy)
    fix a b :: LitematicEntry
    show "compareEntries lc Az a b \<le> 0 \<or> compareEntries lc Az b a \<le> 0"
      using assms(2) by (simp add: compareEntries_def consistentComparator_def)
  next
    fix a b c :: LitematicEntry
    assume "compareEntries lc Az a b \<le> 0" "compareEntries lc Az b c \<le> 0"
    then show "compareEntries lc Az a c \<le> 0"
      using assms(2) unfolding compareEntries_def consistentComparator_def
      by simp
  qed
  then have "sorted_wrt (\<lambda>a b. lc (file_name a) (file_name b) \<le> 0) (filtered lc s)"
    using assms(1) by (simp add: filtered_def compareEntries_def)
  then show ?thesis
    by (rule sorted_wrt_mono_rel[rotated]) (simp add: folded_le[OF assms(2,3)])
qed

lemma sortBy_two:
  "sortBy cmp [a, b] = (if cmp a b \<le> 0 then [a, b] else [b, a])"
  by (simp add: sortBy_def)

lemma consistent_codeUnitCompare: "consistentComparator codeUnitCompare"
  unfolding consistentComparator_def codeUnitCompare_def
  by (auto simp: not_less)

lemma ignoresCase_codeUnitCompare: "ignoresCase codeUnitCompare"
  by (simp add: ignoresCase_def codeUnitCompare_def)

section \<open>The claims about the filter and the sort\<close>



text \<open>
  C6. The sort is applied to the filtered result (the view is a permutation of the
  entries the filter keeps). Under \<open>oldest\<close> the view ascends in \<open>createdAt\<close>, under
  \<open>newest\<close> it descends, and under \<open>az\<close> it ascends in the file name compared without
  regard to case, for a collation that is a consistent comparator and ignores case. A
  catalog of two entries created at 100 and 200, both kept, comes out as [100, 200]
  under \<open>oldest\<close> and as [200, 100] under \<open>newest\<close>.
\<close>

theorem sort_orders_filtered:
  "(sortKey s = Oldest \<longrightarrow> sorted_wrt (\<lambda>a b. createdAt a \<le> createdAt b) (filtered lc s)) \<and>
   (sortKey s = Newest \<longrightarrow> sorted_wrt (\<lambda>a b. createdAt b \<le> createdAt a) (filtered lc s)) \<and>
   (sortKey s = Az \<longrightarrow> consistentComparator lc \<longrightarrow> ignoresCase lc \<longrightarrow>
      sorted_wrt (\<lambda>a b. lc (toLowerCase (file_name a)) (toLowerCase (file_name b)) \<le> 0)
        (filtered lc s)) \<and>
   mset (filtered lc s) = mset (filter (filterKeeps s) (entries s)) \<and>
   ((entries s = [a, b] \<or> entries s = [b, a]) \<longrightarrow> filterKeeps s a \<longrightarrow> filterKeeps s b \<longrightarrow>
      createdAt a = 100 \<longrightarrow> createdAt b = 200 \<longrightarrow>
      (sortKey s = Oldest \<longrightarrow> filtered lc s = [a, b]) \<and>
      (sortKey s = Newest \<longrightarrow> filtered lc s = [b, a]))"
proof (intro conjI impI)
  show "sorted_wrt (\<lambda>a b. createdAt a \<le> createdAt b) (filtered lc s)" if "sortKey s = Oldest"
    using that by (rule filtered_oldest)
  show "sorted_wrt (\<lambda>a b. createdAt b \<le> createdAt a) (filtered lc s)" if "sortKey s = Newest"
    using that by (rule filtered_newest)
  show "sorted_wrt (\<lambda>a b. lc (toLowerCase (file_name a)) (toLowerCase (file_name b)) \<le> 0)
          (filtered lc s)"
    if "sortKey s = Az" "consistentComparator lc" "ignoresCase lc"
    using that by (rule filtered_az)
  show "mset (filtered lc s) = mset (filter (filterKeeps s) (entries s))"
    by (rule filtered_mset)
next
  assume e: "entries s = [a, b] \<or> entries s = [b, a]"
    and k: "filterKeeps s a" "filterKeeps s b"
    and c: "createdAt a = 100" "createdAt b = 200"
  {
    assume "sortKey s = Oldest"
    with e k c show "filtered lc s = [a, b]"
      by (auto simp: filtered_def sortBy_two compareEntries_def)
  }
  {
    assume "sortKey s = Newest"
    with e k c show "filtered lc s = [b, a]"
      by (auto simp: filtered_def sortBy_two compareEntries_def)
  }
qed

theorem sort_orders_filtered_witness:
  "filtered codeUnitCompare (scenarioA\<lparr> sortKey := Oldest \<rparr>) = [entry120, entry121] \<and>
   filtered codeUnitCompare (scenarioA\<lparr> sortKey := Newest \<rparr>) = [entry121, entry120] \<and>
   sorted_wrt (\<lambda>a b. codeUnitCompare (toLowerCase (file_name a)) (toLowerCase (file_name b)) \<le> 0)
     (filtered codeUnitCompare (scenarioA\<lparr> sortKey := Az \<rparr>))"
proof -
  have k: "filterKeeps (scenarioA\<lparr> sortKey := k \<rparr>) e" for k e
    by (simp add: filterKeeps_def scenarioA_def initialApp_def setHas_def setLacks_def
        setOrNull_def versionExcludeSet_def authorExcludeSet_def versionIncludeSet_def
        authorIncludeSet_def searchTerms_def toLowerCase_def matchesSearch_def)
  have e: "entries (scenarioA\<lparr> sortKey := k \<rparr>) = [entry121, entry120]" for k
    by (simp add: scenarioA_def)
  have c: "createdAt entry120 = 100" "createdAt entry121 = 200"
    by (simp_all add: entry120_def entry121_def)
  from sort_orders_filtered[of "scenarioA\<lparr> sortKey := Oldest \<rparr>" codeUnitCompare entry120 entry121]
  have 1: "filtered codeUnitCompare (scenarioA\<lparr> sortKey := Oldest \<rparr>) = [entry120, entry121]"
    using k e c by simp
  from sort_orders_filtered[of "scenarioA\<lparr> sortKey := Newest \<rparr>" codeUnitCompare entry120 entry121]
  have 2: "filtered codeUnitCompare (scenarioA\<lparr> sortKey := Newest \<rparr>) = [entry121, entry120]"
    using k e c by simp
  from sort_orders_filtered[of "scenarioA\<lparr> sortKey := Az \<rparr>" codeUnitCompare entry120 entry121]
  have 3: "sorted_wrt
      (\<lambda>a b. codeUnitCompare (toLowerCase (file_name a)) (toLowerCase (file_name b)) \<le> 0)
      (filtered codeUnitCompare (scenarioA\<lparr> sortKey := Az \<rparr>))"
    using consistent_codeUnitCompare ignoresCase_codeUnitCompare by simp
  from 1 2 3 show ?thesis by simp
qed

section \<open>The facet counter: properties\<close>

lemma sets_versionIncludes_cleared:
  "versionIncludeSet (s\<lparr> versionIncludes := [] \<rparr>) = None"
  "versionExcludeSet (s\<lparr> versionIncludes := [] \<rparr>) = versionExcludeSet s"
  "authorIncludeSet (s\<lparr> versionIncludes := [] \<rparr>) = authorIncludeSet s"
  "authorExcludeSet (s\<lparr> versionIncludes := [] \<rparr>) = authorExcludeSet s"
  "searchTerms (s\<lparr> versionIncludes := [] \<rparr>) = searchTerms s"
  by (simp_all add: versionIncludeSet_def versionExcludeSet_def authorIncludeSet_def
      authorExcludeSet_def setOrNull_def searchTerms_def)

lemma sets_authorIncludes_cleared:
  "authorIncludeSet (s\<lparr> authorIncludes := [] \<rparr>) = None"
  "versionExcludeSet (s\<lparr> authorIncludes := [] \<rparr>) = versionExcludeSet s"
  "versionIncludeSet (s\<lparr> authorIncludes := [] \<rparr>) = versionIncludeSet s"
  "authorExcludeSet (s\<lparr> authorIncludes := [] \<rparr>) = authorExcludeSet s"
  "searchTerms (s\<lparr> authorIncludes := [] \<rparr>) = searchTerms s"
  by (simp_all add: versionIncludeSet_def versionExcludeSet_def authorIncludeSet_def
      authorExcludeSet_def setOrNull_def searchTerms_def)

lemma setLacks_None: "setLacks None x = False"
  by (simp add: setLacks_def)

lemma versionPreviewList_filterKeeps:
  "versionPreviewList s = filter (filterKeeps (s\<lparr> versionIncludes := [] \<rparr>)) (entries s)"
  unfolding versionPreviewList_def filterKeeps_def sets_versionIncludes_cleared setLacks_None
  by simp

lemma authorPreviewList_filterKeeps:
  "authorPreviewList s = filter (filterKeeps (s\<lparr> authorIncludes := [] \<rparr>)) (entries s)"
  unfolding authorPreviewList_def filterKeeps_def sets_authorIncludes_cleared setLacks_None
  by simp

lemma survives_no_constraints:
  "versionExcludes s = [] \<Longrightarrow> authorExcludes s = [] \<Longrightarrow> versionIncludes s = [] \<Longrightarrow>
   authorIncludes s = [] \<Longrightarrow> q s = [] \<Longrightarrow> survives s e"
  by (simp add: survives_def lowerCased_def termsOf_Nil)

text \<open>
  C3, as claimed: the preview list of a facet ignores that facet's own include and exclude
  choices. It does not: with one entry by alice, one by bob and the author exclude list
  [alice], the author preview list holds bob's entry only.
\<close>

theorem preview_ignores_own_facet_counterexample:
  "authorPreviewList facetState = [entry121] \<and>
   filter (survives (facetState\<lparr> authorIncludes := [], authorExcludes := [] \<rparr>)) (entries facetState)
     = [entry120, entry121] \<and>
   authorPreviewList facetState \<noteq>
     filter (survives (facetState\<lparr> authorIncludes := [], authorExcludes := [] \<rparr>)) (entries facetState)"
proof -
  have 1: "authorPreviewList facetState = [entry121]"
    by (simp add: authorPreviewList_def facetState_def initialApp_def versionExcludeSet_def
        authorExcludeSet_def versionIncludeSet_def setOrNull_def setHas_def setLacks_def
        searchTerms_def toLowerCase_def matchesSearch_def entry120_def entry121_def)
  have "survives (facetState\<lparr> authorIncludes := [], authorExcludes := [] \<rparr>) e" for e
    by (rule survives_no_constraints) (simp_all add: facetState_def initialApp_def)
  then have 2: "filter (survives (facetState\<lparr> authorIncludes := [], authorExcludes := [] \<rparr>))
      (entries facetState) = [entry120, entry121]"
    by (simp add: facetState_def)
  from 1 2 show ?thesis by simp
qed

text \<open>
  C3, amended. The preview list of a facet is the catalog filtered by both exclude sets,
  by the other facet's include set and by the search text: the filter of the view with
  only that facet's own include list cleared.
\<close>

theorem preview_ignores_own_includes:
  "versionPreviewList s = filter (survives (s\<lparr> versionIncludes := [] \<rparr>)) (entries s) \<and>
   authorPreviewList s = filter (survives (s\<lparr> authorIncludes := [] \<rparr>)) (entries s)"
proof -
  have "filterKeeps t = survives t" for t
    by (rule ext) (rule filterKeeps_survives)
  then show ?thesis
    by (simp add: versionPreviewList_filterKeeps authorPreviewList_filterKeeps)
qed

theorem preview_ignores_own_includes_witness:
  "filter (survives (facetState\<lparr> authorIncludes := [] \<rparr>)) (entries facetState) = [entry121]"
proof -
  have "authorPreviewList facetState = [entry121]"
    by (simp add: authorPreviewList_def facetState_def initialApp_def versionExcludeSet_def
        authorExcludeSet_def versionIncludeSet_def setOrNull_def setHas_def setLacks_def
        searchTerms_def toLowerCase_def matchesSearch_def entry120_def entry121_def)
  with preview_ignores_own_includes[of facetState] show ?thesis by simp
qed

section \<open>The codec: properties\<close>



lemma of_char_digitChar: "d < 10 \<Longrightarrow> (of_char (digitChar d) :: nat) = 48 + d"
  by (simp add: digitChar_def)

lemma isDigit_digitChar: "d < 10 \<Longrightarrow> isDigit (digitChar d)"
  by (simp add: isDigit_def of_char_digitChar)

lemma digitVal_digitChar: "d < 10 \<Longrightarrow> digitVal (digitChar d) = d"
  by (simp add: digitVal_def of_char_digitChar)

lemma natToString_digits: "c \<in> set (natToString n) \<Longrightarrow> isDigit c"
proof (induction n arbitrary: c rule: natToString.induct)
  case (1 n)
  show ?case
  proof (cases "n < 10")
    case True
    with 1(2) show ?thesis by (simp add: natToString.simps[of n] isDigit_digitChar)
  next
    case False
    with 1 show ?thesis
      by (auto simp: natToString.simps[of n] isDigit_digitChar)
  qed
qed

lemma natToString_nonempty: "natToString n \<noteq> []"
  by (simp add: natToString.simps[of n])

lemma digitsVal_snoc: "digitsVal (ds @ [c]) = 10 * digitsVal ds + digitVal c"
  by (simp add: digitsVal_def)

lemma digitsVal_natToString: "digitsVal (natToString n) = n"
proof (induction n rule: natToString.induct)
  case (1 n)
  show ?case
  proof (cases "n < 10")
    case True
    then show ?thesis
      by (simp add: natToString.simps[of n] digitsVal_def digitVal_digitChar)
  next
    case False
    with 1 show ?thesis
      by (simp add: natToString.simps[of n] digitsVal_snoc digitVal_digitChar)
  qed
qed

lemma natToString_inj: "natToString i = natToString j \<Longrightarrow> i = j"
  by (metis digitsVal_natToString)

lemma isDigit_not_space: "isDigit c \<Longrightarrow> \<not> isSpace c"
  by (auto simp: isDigit_def isSpace_def)

lemma isDigit_not_sign: "isDigit c \<Longrightarrow> c \<noteq> CHR ''-'' \<and> c \<noteq> CHR ''+''"
  by (auto simp: isDigit_def)

lemma parseInt_natToString: "parseInt (natToString n) = Some (int n)"
proof -
  obtain c cs where cs: "natToString n = c # cs"
    using natToString_nonempty[of n] by (cases "natToString n") auto
  have d: "\<forall>x \<in> set (c # cs). isDigit x"
    using natToString_digits[of _ n] cs by auto
  then have c: "isDigit c" by simp
  have 1: "dropWhile isSpace (c # cs) = c # cs"
    using isDigit_not_space[OF c] by simp
  have 2: "takeWhile isDigit (c # cs) = c # cs"
    using d by (simp add: takeWhile_eq_all_conv)
  have "parseInt (c # cs) = Some (int (digitsVal (c # cs)))"
    unfolding parseInt_def 1 Let_def using isDigit_not_sign[OF c] 2 by simp
  then show ?thesis using cs digitsVal_natToString[of n] by simp
qed

lemma parseInt_intToString: "0 \<le> i \<Longrightarrow> parseInt (intToString i) = Some i"
  by (simp add: intToString_def parseInt_natToString)


lemma splitOn_nonempty: "splitOn d s \<noteq> []"
  by (induction s) (auto split: list.splits)

lemma splitOn_no_sep: "d \<notin> set v \<Longrightarrow> splitOn d v = [v]"
  by (induction v) auto

lemma splitOn_append_sep: "d \<notin> set v \<Longrightarrow> splitOn d (v @ d # rest) = v # splitOn d rest"
  by (induction v) auto

lemma splitOn_joinWith:
  "vs \<noteq> [] \<Longrightarrow> \<forall>v \<in> set vs. d \<notin> set v \<Longrightarrow> splitOn d (joinWith [d] vs) = vs"
proof (induction vs rule: induct_list012)
  case 1
  then show ?case by simp
next
  case (2 x)
  then show ?case by (simp add: splitOn_no_sep)
next
  case (3 x y ys)
  then show ?case by (simp add: splitOn_append_sep)
qed

lemma joinWith_empty_iff:
  assumes "list_all plainToken vs" "vs \<noteq> []"
  shows "joinWith sep vs \<noteq> []"
proof (cases vs)
  case Nil
  with assms show ?thesis by simp
next
  case (Cons x xs)
  with assms show ?thesis by (cases xs) (auto simp: plainToken_def)
qed

lemma parseListParam_listToParam:
  assumes "list_all plainToken vs"
  shows "parseListParam (listToParam vs) = vs"
proof (cases "vs = []")
  case True
  then show ?thesis by (simp add: parseListParam_def listToParam_def)
next
  case False
  have ne: "joinWith '','' vs \<noteq> []"
    using assms False by (rule joinWith_empty_iff)
  have "\<forall>v \<in> set vs. CHR '','' \<notin> set v"
    using assms by (simp add: list_all_iff plainToken_def)
  then have sp: "splitOn CHR '','' (joinWith '','' vs) = vs"
    using False by (simp add: splitOn_joinWith)
  have tr: "map trim vs = vs"
    using assms by (simp add: list_all_iff plainToken_def map_idI)
  have fl: "filter (\<lambda>t. t \<noteq> []) vs = vs"
    using assms by (simp add: list_all_iff plainToken_def)
  show ?thesis
    using False ne by (simp add: parseListParam_def listToParam_def sp tr fl)
qed

lemma map_of_filter_other:
  "k' \<noteq> k \<Longrightarrow> map_of (filter (\<lambda>r. fst r \<noteq> k) ps) k' = map_of ps k'"
  by (induction ps) auto

lemma paramsGet_paramsSet:
  "paramsGet (paramsSet k v ps) k' = (if k' = k then Some v else paramsGet ps k')"
  by (induction ps) (auto simp: paramsGet_def map_of_filter_other)

lemma paramsGet_setIfTruthy:
  "paramsGet (setIfTruthy k v ps) k' =
     (if k' = k \<and> v \<noteq> None \<and> v \<noteq> Some [] then v else paramsGet ps k')"
  by (auto simp: setIfTruthy_def paramsGet_paramsSet split: option.splits)

lemma paramsGet_Nil: "paramsGet [] k = None"
  by (simp add: paramsGet_def)

lemma buildParams_get_q:
  "paramsGet (buildParams io s) ''q'' = (if trim (q s) \<noteq> [] then Some (q s) else None)"
  by (simp add: buildParams_def Let_def paramsGet_paramsSet paramsGet_setIfTruthy paramsGet_Nil
      del: paramsSet.simps)

lemma buildParams_get_sort:
  "paramsGet (buildParams io s) ''sort'' =
     (if sortKey s \<noteq> Newest then Some (sortKeyString (sortKey s)) else None)"
  by (simp add: buildParams_def Let_def paramsGet_paramsSet paramsGet_setIfTruthy paramsGet_Nil
      del: paramsSet.simps)

lemma buildParams_get_vInc:
  "paramsGet (buildParams io s) ''vInc'' =
     (if listToParam (versionIncludes s) = Some [] then None else listToParam (versionIncludes s))"
  by (simp add: buildParams_def Let_def paramsGet_paramsSet paramsGet_setIfTruthy paramsGet_Nil
      del: paramsSet.simps)

lemma buildParams_get_vExc:
  "paramsGet (buildParams io s) ''vExc'' =
     (if listToParam (versionExcludes s) = Some [] then None else listToParam (versionExcludes s))"
  by (simp add: buildParams_def Let_def paramsGet_paramsSet paramsGet_setIfTruthy paramsGet_Nil
      del: paramsSet.simps)

lemma buildParams_get_aInc:
  "paramsGet (buildParams io s) ''aInc'' =
     (if listToParam (authorIncludes s) = Some [] then None else listToParam (authorIncludes s))"
  by (simp add: buildParams_def Let_def paramsGet_paramsSet paramsGet_setIfTruthy paramsGet_Nil
      del: paramsSet.simps)

lemma buildParams_get_aExc:
  "paramsGet (buildParams io s) ''aExc'' =
     (if listToParam (authorExcludes s) = Some [] then None else listToParam (authorExcludes s))"
  by (simp add: buildParams_def Let_def paramsGet_paramsSet paramsGet_setIfTruthy paramsGet_Nil
      del: paramsSet.simps)

lemma buildParams_get_preview:
  "paramsGet (buildParams io s) ''preview'' =
     (case preview s of None \<Rightarrow> None | Some e \<Rightarrow> if entry_id e = [] then None else Some (entry_id e))"
  by (simp add: buildParams_def Let_def paramsGet_paramsSet paramsGet_setIfTruthy paramsGet_Nil
      del: paramsSet.simps split: option.splits)

lemma buildParams_get_idx:
  "paramsGet (buildParams io s) ''idx'' =
     Some (intToString (max 0 (case io of Some i \<Rightarrow> i | None \<Rightarrow> anchorIndex s)))"
  by (simp add: buildParams_def Let_def paramsGet_paramsSet paramsGet_setIfTruthy paramsGet_Nil
      del: paramsSet.simps)

lemma parseListParam_truthy:
  "parseListParam (if v = Some [] then None else v) = parseListParam v"
  by (simp add: parseListParam_def)

lemma intToString_nonempty: "intToString i \<noteq> []"
  by (simp add: intToString_def natToString_nonempty)


lemma sortKeyString_simps:
  "sortKeyString k = ''newest'' \<longleftrightarrow> k = Newest"
  "sortKeyString k = ''oldest'' \<longleftrightarrow> k = Oldest"
  "sortKeyString k = ''az'' \<longleftrightarrow> k = Az"
  by (cases k; simp add: sortKeyString_def)+

lemma buildParams_sharedState:
  "buildParams None sharedState =
     [(''q'', ''castle''), (''sort'', ''az''), (''aInc'', ''alice,bob''),
      (''preview'', ''castle.litematic-1''), (''idx'', ''42'')]"
  by code_simp


lemma splitOn_parts_no_sep: "w \<in> set (splitOn d s) \<Longrightarrow> d \<notin> set w"
proof (induction s arbitrary: w)
  case Nil
  then show ?case by simp
next
  case (Cons c cs)
  obtain v vs where vs: "splitOn d cs = v # vs"
    using splitOn_nonempty[of d cs] by (cases "splitOn d cs") auto
  show ?case
  proof (cases "c = d")
    case True
    with Cons show ?thesis by auto
  next
    case False
    with Cons.prems vs have "w = c # v \<or> w \<in> set vs" by simp
    then show ?thesis
    proof
      assume "w = c # v"
      moreover have "d \<notin> set v" using Cons.IH[of v] vs by simp
      ultimately show ?thesis using False by auto
    next
      assume "w \<in> set vs"
      then show ?thesis using Cons.IH[of w] vs by simp
    qed
  qed
qed

lemma set_trim: "set (trim w) \<subseteq> set w"
proof
  fix c assume "c \<in> set (trim w)"
  then have "c \<in> set (dropWhile isSpace (rev (dropWhile isSpace w)))"
    by (simp add: trim_def)
  then have "c \<in> set (rev (dropWhile isSpace w))" by (rule set_dropWhileD)
  then have "c \<in> set (dropWhile isSpace w)" by simp
  then show "c \<in> set w" by (rule set_dropWhileD)
qed

lemma dropWhile_fixed: "xs = [] \<or> \<not> P (hd xs) \<Longrightarrow> dropWhile P xs = xs"
  by (cases xs) auto

lemma trim_idem: "trim (trim s) = trim s"
proof -
  define u where "u = dropWhile isSpace s"
  define r where "r = dropWhile isSpace (rev u)"
  have t: "trim s = rev r" by (simp add: trim_def u_def r_def)
  have u: "u = [] \<or> \<not> isSpace (hd u)" unfolding u_def by (rule dropWhile_head)
  have r: "r = [] \<or> \<not> isSpace (hd r)" unfolding r_def by (rule dropWhile_head)
  define x where "x = rev (takeWhile isSpace (rev u))"
  have "rev u = takeWhile isSpace (rev u) @ r" by (simp add: r_def)
  then have "rev (rev u) = rev (takeWhile isSpace (rev u) @ r)" by (rule arg_cong)
  then have eq: "u = rev r @ x" by (simp add: x_def)
  have "rev r = [] \<or> \<not> isSpace (hd (rev r))"
  proof (cases "rev r = []")
    case True
    then show ?thesis by simp
  next
    case False
    then have "hd (rev r @ x) = hd (rev r)" by (rule hd_append2)
    moreover have "rev r @ x \<noteq> []" using False by simp
    ultimately have "u \<noteq> []" "hd u = hd (rev r)" unfolding eq by simp_all
    with u show ?thesis by simp
  qed
  then have 1: "dropWhile isSpace (rev r) = rev r" by (rule dropWhile_fixed)
  have 2: "dropWhile isSpace r = r" using r by (rule dropWhile_fixed)
  show ?thesis unfolding t by (simp add: trim_def 1 2)
qed

lemma parseListParam_tokens: "t \<in> set (parseListParam raw) \<Longrightarrow> plainToken t"
proof -
  assume a: "t \<in> set (parseListParam raw)"
  then obtain r where r: "raw = Some r" "r \<noteq> []"
    by (cases raw) (auto simp: parseListParam_def split: if_splits)
  with a obtain w where w: "w \<in> set (splitOn CHR '','' r)" "t = trim w" "t \<noteq> []"
    by (auto simp: parseListParam_def)
  have "CHR '','' \<notin> set w" using w(1) by (rule splitOn_parts_no_sep)
  then have "CHR '','' \<notin> set t" using set_trim[of w] w(2) by auto
  with w show ?thesis by (simp add: plainToken_def trim_idem)
qed

lemma applyParams_unknown_keys:
  assumes "list_all (\<lambda>k. paramsGet sp k = paramsGet sp' k)
            [''q'', ''sort'', ''vInc'', ''vExc'', ''aInc'', ''aExc'', ''preview'', ''idx'']"
  shows "applyParams sp s = applyParams sp' s"
  using assms by (simp add: applyParams_def Let_def)

lemma applyParams_malformed_idx:
  "paramsGet sp ''idx'' = Some v \<Longrightarrow> v \<noteq> [] \<Longrightarrow> parseInt v = None \<Longrightarrow>
   pendingIndex (applyParams sp s) = Some 0"
  by (simp add: applyParams_def Let_def)

lemma applyParams_unknown_sort:
  "paramsGet sp ''sort'' \<notin> {Some ''newest'', Some ''oldest'', Some ''az''} \<Longrightarrow>
   sortKey (applyParams sp s) = sortKey s"
  by (simp add: applyParams_def Let_def)

section \<open>The claims about the codec\<close>

text \<open>
  C2, as claimed: decoding the encoding of any state gives the state back. It does not:
  the author include list [Doe, John] (one value with a comma) is encoded as
  \<open>aInc=Doe, John\<close> and decoded as the two values Doe and John.
\<close>

theorem decode_encode_roundtrip_counterexample:
  "authorIncludes commaState = [''Doe, John''] \<and>
   buildParams None commaState = [(''aInc'', ''Doe, John''), (''idx'', ''0'')] \<and>
   authorIncludes (applyParams (buildParams None commaState) initialApp) = [''Doe'', ''John''] \<and>
   authorIncludes (applyParams (buildParams None commaState) initialApp) \<noteq> authorIncludes commaState"
  by code_simp

text \<open>
  C2, amended. For a state whose facet values are plain tokens and whose preview, if any,
  has a non-empty id, decoding the encoding (on any state \<open>s0\<close> the decoder starts from)
  gives back the four facet lists, the preview id as the pending preview id and the
  anchor index, clamped at 0, as the pending index; the search text comes back as it is
  unless it is blank, which is omitted and restored as the empty default; and the sort
  key comes back whenever it is not the default or the decoder starts from the default.
\<close>

theorem decode_encode_roundtrip:
  assumes "list_all plainToken (versionIncludes s)" "list_all plainToken (versionExcludes s)"
    and "list_all plainToken (authorIncludes s)" "list_all plainToken (authorExcludes s)"
    and "\<forall>e. preview s = Some e \<longrightarrow> entry_id e \<noteq> []"
  shows "q (applyParams (buildParams io s) s0) = (if trim (q s) = [] then [] else q s) \<and>
     versionIncludes (applyParams (buildParams io s) s0) = versionIncludes s \<and>
     versionExcludes (applyParams (buildParams io s) s0) = versionExcludes s \<and>
     authorIncludes (applyParams (buildParams io s) s0) = authorIncludes s \<and>
     authorExcludes (applyParams (buildParams io s) s0) = authorExcludes s \<and>
     pendingPreviewId (applyParams (buildParams io s) s0) = map_option entry_id (preview s) \<and>
     pendingIndex (applyParams (buildParams io s) s0) =
       Some (max 0 (case io of Some i \<Rightarrow> i | None \<Rightarrow> anchorIndex s)) \<and>
     (sortKey s \<noteq> Newest \<or> sortKey s0 = Newest \<longrightarrow>
        sortKey (applyParams (buildParams io s) s0) = sortKey s)"
proof (intro conjI)
  let ?s' = "applyParams (buildParams io s) s0"
  show "q ?s' = (if trim (q s) = [] then [] else q s)"
    by (simp add: applyParams_def Let_def buildParams_get_q)
  show "versionIncludes ?s' = versionIncludes s"
    using assms(1)
    by (simp add: applyParams_def Let_def buildParams_get_vInc parseListParam_truthy
        parseListParam_listToParam)
  show "versionExcludes ?s' = versionExcludes s"
    using assms(2)
    by (simp add: applyParams_def Let_def buildParams_get_vExc parseListParam_truthy
        parseListParam_listToParam)
  show "authorIncludes ?s' = authorIncludes s"
    using assms(3)
    by (simp add: applyParams_def Let_def buildParams_get_aInc parseListParam_truthy
        parseListParam_listToParam)
  show "authorExcludes ?s' = authorExcludes s"
    using assms(4)
    by (simp add: applyParams_def Let_def buildParams_get_aExc parseListParam_truthy
        parseListParam_listToParam)
  show "pendingPreviewId ?s' = map_option entry_id (preview s)"
    using assms(5)
    by (simp add: applyParams_def Let_def buildParams_get_preview split: option.splits)
  show "pendingIndex ?s' = Some (max 0 (case io of Some i \<Rightarrow> i | None \<Rightarrow> anchorIndex s))"
    by (simp add: applyParams_def Let_def buildParams_get_idx intToString_nonempty
        parseInt_intToString)
  show "sortKey s \<noteq> Newest \<or> sortKey s0 = Newest \<longrightarrow> sortKey ?s' = sortKey s"
    by (cases "sortKey s")
      (simp_all add: applyParams_def Let_def buildParams_get_sort sortKeyString_def)
qed

theorem decode_encode_roundtrip_witness:
  "q (applyParams (buildParams None sharedState) initialApp) = ''castle'' \<and>
   sortKey (applyParams (buildParams None sharedState) initialApp) = Az \<and>
   authorIncludes (applyParams (buildParams None sharedState) initialApp) = [''alice'', ''bob''] \<and>
   versionIncludes (applyParams (buildParams None sharedState) initialApp) = [] \<and>
   pendingPreviewId (applyParams (buildParams None sharedState) initialApp) = Some ''castle.litematic-1'' \<and>
   pendingIndex (applyParams (buildParams None sharedState) initialApp) = Some 42"
proof -
  have t: "list_all plainToken (versionIncludes sharedState)"
    "list_all plainToken (versionExcludes sharedState)"
    "list_all plainToken (authorExcludes sharedState)"
    by (simp_all add: sharedState_def initialApp_def)
  have "plainToken ''alice''" "plainToken ''bob''"
    by (simp_all add: plainToken_def trim_def isSpace_def)
  then have a: "list_all plainToken (authorIncludes sharedState)"
    by (simp add: sharedState_def)
  have p: "\<forall>e. preview sharedState = Some e \<longrightarrow> entry_id e \<noteq> []"
    by (simp add: sharedState_def entry121_def)
  have tr: "trim ''castle'' = ''castle''"
    by (simp add: trim_def isSpace_def)
  from decode_encode_roundtrip[OF t(1) t(2) a t(3) p, of None initialApp] tr
  show ?thesis
    by (simp add: sharedState_def initialApp_def entry121_def)
qed

text \<open>
  C8. On a \<^verbatim>\<open>popstate\<close> with the sort key at \<open>oldest\<close>, a query whose \<open>sort\<close> value is not
  one of the three names, or that has no \<open>sort\<close> at all (as the encoder writes the
  default), leaves the sort key at \<open>oldest\<close>: it does not fall back to \<open>newest\<close>. The
  rest of the decoder is tolerant as claimed (\<open>applyParams_unknown_keys\<close>,
  \<open>applyParams_malformed_idx\<close>, \<open>parseListParam_tokens\<close>).
\<close>

theorem applyParams_keeps_stale_sort:
  "sortKey (applyParams [(''sort'', ''bogus'')] (initialApp\<lparr> sortKey := Oldest \<rparr>)) = Oldest \<and>
   sortKey (applyParams [] (initialApp\<lparr> sortKey := Oldest \<rparr>)) = Oldest \<and>
   sortKey (applyParams (buildParams None initialApp) (initialApp\<lparr> sortKey := Oldest \<rparr>)) = Oldest"
  by code_simp

section \<open>The windowing engine and the restoration: properties\<close>

text \<open>Every writer of \<^verbatim>\<open>windowStart\<close> leaves it non-negative.\<close>

lemma windowStart_initial: "0 \<le> windowStart initialApp"
  by (simp add: initialApp_def)

lemma windowStart_resetEffect: "0 \<le> windowStart s \<Longrightarrow> 0 \<le> windowStart (resetEffect s)"
  by (simp add: resetEffect_def)

lemma windowStart_clampEffect: "0 \<le> windowStart s \<Longrightarrow> 0 \<le> windowStart (clampEffect view s)"
  by (simp add: clampEffect_def)

lemma windowStart_handleScroll:
  "0 \<le> windowStart s \<Longrightarrow> 0 \<le> windowStart (handleScroll y off g h cols s)"
  by (simp add: handleScroll_def Let_def)

lemma windowStart_restoreEffect:
  "0 \<le> windowStart s \<Longrightarrow> 0 \<le> windowStart (fst (restoreEffect view cols s))"
  by (simp add: restoreEffect_def Let_def split: option.splits)

lemma windowStart_applyParams: "windowStart (applyParams sp s) = windowStart s"
  by (simp add: applyParams_def Let_def)

lemma getCols_pos: "1 \<le> getCols w"
  by (simp add: getCols_def split: option.splits)

lemma approxRowHeight_pos:
  "(case m of None \<Rightarrow> True | Some h \<Rightarrow> 0 \<le> h) \<Longrightarrow> 0 < approxRowHeight m"
  by (auto simp: approxRowHeight_def ROW_GAP_def split: option.splits)

lemma ceil_div_int:
  fixes n c :: int
  assumes "1 \<le> c"
  shows "- ((- n) div c) = (n + c - 1) div c"
proof -
  define k where "k = n div c"
  define r where "r = n mod c"
  have n: "n = c * k + r" by (simp add: k_def r_def)
  have r: "0 \<le> r" "r < c" using assms by (simp_all add: r_def)
  show ?thesis
  proof (cases "r = 0")
    case True
    have "(- n) div c = - k"
      by (rule int_div_pos_eq[of _ _ _ 0]) (use n True assms in \<open>simp_all\<close>)
    moreover have "(n + c - 1) div c = k"
      by (rule int_div_pos_eq[of _ _ _ "c - 1"]) (use n True assms in \<open>simp_all\<close>)
    ultimately show ?thesis by simp
  next
    case False
    have "(- n) div c = - k - 1"
      by (rule int_div_pos_eq[of _ _ _ "c - r"]) (use n False r assms in \<open>simp_all add: algebra_simps\<close>)
    moreover have "(n + c - 1) div c = k + 1"
      by (rule int_div_pos_eq[of _ _ _ "r - 1"]) (use n False r assms in \<open>simp_all add: algebra_simps\<close>)
    ultimately show ?thesis by simp
  qed
qed

lemma ceiling_divide_int:
  fixes n c :: int
  assumes "1 \<le> c"
  shows "\<lceil>real_of_int n / real_of_int c\<rceil> = (n + c - 1) div c"
proof -
  have "- (real_of_int n / real_of_int c) = real_of_int (- n) / real_of_int c" by simp
  then have "\<lfloor>- (real_of_int n / real_of_int c)\<rfloor> = (- n) div c"
    by (simp only: floor_divide_of_int_eq)
  then have "\<lceil>real_of_int n / real_of_int c\<rceil> = - ((- n) div c)"
    by (simp add: ceiling_def)
  with ceil_div_int[OF assms] show ?thesis by simp
qed


lemma tryScroll_outcome:
  "a < 10 \<Longrightarrow>
   \<exists>n. a < n \<and> n \<le> 10 \<and>
     (\<forall>i. a \<le> i \<and> i < n - 1 \<longrightarrow> querySelector doc (selectorOf tid) i = Inr None) \<and>
     (case querySelector doc (selectorOf tid) (n - 1) of
        Inl e \<Rightarrow> tryScroll doc tid a s = Inl (e, s, n)
      | Inr None \<Rightarrow> n = 10 \<and> tryScroll doc tid a s = Inr (s\<lparr> restoringRef := False \<rparr>, [], n)
      | Inr (Some y) \<Rightarrow>
          tryScroll doc tid a s =
            Inr (s\<lparr> pendingScrollId := None \<rparr>, [ScrollTo (max 0 y), ClearRestoringAfter 50], n))"
proof (induction doc tid a s rule: tryScroll.induct)
  case (1 doc targetId attempts s)
  let ?Q = "querySelector doc (selectorOf targetId)"
  show ?case
  proof (cases "?Q attempts")
    case (Inl e)
    have "tryScroll doc targetId attempts s = Inl (e, s, attempts + 1)"
      using Inl by (subst tryScroll.simps) simp
    with Inl 1(2) show ?thesis by (intro exI[of _ "attempts + 1"]) auto
  next
    case (Inr r)
    show ?thesis
    proof (cases r)
      case (Some y)
      have "tryScroll doc targetId attempts s =
          Inr (s\<lparr> pendingScrollId := None \<rparr>, [ScrollTo (max 0 y), ClearRestoringAfter 50],
               attempts + 1)"
        using Inr Some by (subst tryScroll.simps) simp
      with Inr Some 1(2) show ?thesis by (intro exI[of _ "attempts + 1"]) auto
    next
      case None
      show ?thesis
      proof (cases "attempts + 1 < 10")
        case True
        from 1(1)[OF Inr None True True] obtain n where
          r: "attempts + 1 < n" "n \<le> 10"
            "\<forall>i. attempts + 1 \<le> i \<and> i < n - 1 \<longrightarrow> ?Q i = Inr None"
            "case ?Q (n - 1) of
               Inl e \<Rightarrow> tryScroll doc targetId (attempts + 1) s = Inl (e, s, n)
             | Inr None \<Rightarrow> n = 10 \<and>
                 tryScroll doc targetId (attempts + 1) s = Inr (s\<lparr> restoringRef := False \<rparr>, [], n)
             | Inr (Some y) \<Rightarrow>
                 tryScroll doc targetId (attempts + 1) s =
                   Inr (s\<lparr> pendingScrollId := None \<rparr>,
                        [ScrollTo (max 0 y), ClearRestoringAfter 50], n)"
          by blast
        have step: "tryScroll doc targetId attempts s = tryScroll doc targetId (attempts + 1) s"
          using Inr None True by (subst tryScroll.simps) simp
        have "\<forall>i. attempts \<le> i \<and> i < n - 1 \<longrightarrow> ?Q i = Inr None"
        proof (intro allI impI)
          fix i assume i: "attempts \<le> i \<and> i < n - 1"
          show "?Q i = Inr None"
          proof (cases "i = attempts")
            case True
            with Inr None show ?thesis by simp
          next
            case False
            with i r(3) show ?thesis by simp
          qed
        qed
        with r(1,2,4) show ?thesis
          unfolding step by (intro exI[of _ n]) simp
      next
        case False
        with 1(2) have a: "attempts = 9" by simp
        have "tryScroll doc targetId attempts s = Inr (s\<lparr> restoringRef := False \<rparr>, [], attempts + 1)"
          using Inr None False by (subst tryScroll.simps) simp
        then show ?thesis using Inr None a by (intro exI[of _ 10]) auto
      qed
    qed
  qed
qed

lemma tryScroll_all_missing:
  "a < 10 \<Longrightarrow> \<forall>i < 10. querySelector doc (selectorOf tid) i = Inr None \<Longrightarrow>
   tryScroll doc tid a s = Inr (s\<lparr> restoringRef := False \<rparr>, [], 10)"
proof (induction doc tid a s rule: tryScroll.induct)
  case (1 doc targetId attempts s)
  from 1(2,3) have n: "querySelector doc (selectorOf targetId) attempts = Inr None" by simp
  show ?case
  proof (cases "attempts + 1 < 10")
    case True
    have "tryScroll doc targetId attempts s = tryScroll doc targetId (attempts + 1) s"
      using n True by (subst tryScroll.simps) simp
    with 1(1)[OF n refl True True 1(3)] show ?thesis by simp
  next
    case False
    with 1(2) have a: "attempts = 9" by simp
    have "tryScroll doc targetId attempts s = Inr (s\<lparr> restoringRef := False \<rparr>, [], attempts + 1)"
      using n False by (subst tryScroll.simps) simp
    with a show ?thesis by simp
  qed
qed

lemma tryScroll_throws:
  "querySelector doc (selectorOf tid) a = Inl e \<Longrightarrow> tryScroll doc tid a s = Inl (e, s, a + 1)"
  by (subst tryScroll.simps) simp


lemma suffix_after_last_sep:
  assumes "xs @ d # u = ys @ d # v" "d \<notin> set u" "d \<notin> set v"
  shows "u = v"
proof -
  have "rev (xs @ d # u) = rev (ys @ d # v)" using assms(1) by simp
  then have "rev u @ d # rev xs = rev v @ d # rev ys" by simp
  then have "takeWhile (\<lambda>c. c \<noteq> d) (rev u @ d # rev xs) = takeWhile (\<lambda>c. c \<noteq> d) (rev v @ d # rev ys)"
    by simp
  moreover have "takeWhile (\<lambda>c. c \<noteq> d) (rev u @ d # rev xs) = rev u"
    by (subst takeWhile_append2) (use assms(2) in auto)
  moreover have "takeWhile (\<lambda>c. c \<noteq> d) (rev v @ d # rev ys) = rev v"
    by (subst takeWhile_append2) (use assms(3) in auto)
  ultimately show ?thesis by simp
qed

lemma minus_not_digit: "CHR ''-'' \<notin> set (natToString n)"
  using natToString_digits[of "CHR ''-''" n] by (auto simp: isDigit_def)

lemma entry_id_index:
  assumes "a @ ''-'' @ natToString i = b @ ''-'' @ natToString j"
  shows "i = j"
proof -
  from assms have "a @ CHR ''-'' # natToString i = b @ CHR ''-'' # natToString j" by simp
  then have "natToString i = natToString j"
    by (rule suffix_after_last_sep) (rule minus_not_digit)+
  then show ?thesis by (rule natToString_inj)
qed

lemma normalized_ids:
  "map entry_id (normalized raw) =
     map (\<lambda>(entry, idx). file_name entry @ ''-'' @ natToString idx) (zip raw [0 ..< length raw])"
  by (simp add: normalized_def normalizeEntry_def case_prod_beta)

lemma nth_normalized_id:
  assumes "i < length raw"
  shows "entry_id (normalized raw ! i) = file_name (raw ! i) @ ''-'' @ natToString i"
  using assms by (simp add: normalized_def normalizeEntry_def)

lemma distinct_ids: "distinct (map entry_id (normalized raw))"
  unfolding normalized_ids
proof (rule distinct_map[THEN iffD2], intro conjI)
  show "distinct (zip raw [0 ..< length raw])"
    by (rule distinct_zipI2) simp
  show "inj_on (\<lambda>(entry, idx). file_name entry @ ''-'' @ natToString idx)
          (set (zip raw [0 ..< length raw]))"
  proof (rule inj_onI)
    fix x y
    assume x: "x \<in> set (zip raw [0 ..< length raw])"
      and y: "y \<in> set (zip raw [0 ..< length raw])"
      and eq: "(case x of (entry, idx) \<Rightarrow> file_name entry @ ''-'' @ natToString idx) =
               (case y of (entry, idx) \<Rightarrow> file_name entry @ ''-'' @ natToString idx)"
    obtain e i where xe: "x = (e, i)" by (cases x)
    obtain f j where yf: "y = (f, j)" by (cases y)
    from eq xe yf
    have "file_name e @ ''-'' @ natToString i = file_name f @ ''-'' @ natToString j"
      by simp
    then have "i = j" by (rule entry_id_index)
    moreover from x xe have "i < length raw" "e = raw ! i"
      by (auto simp: set_zip)
    moreover from y yf have "j < length raw" "f = raw ! j"
      by (auto simp: set_zip)
    ultimately show "x = y" using xe yf by simp
  qed
qed

lemma distinct_count_le_one: "distinct xs \<Longrightarrow> length (filter (\<lambda>x. x = a) xs) \<le> 1"
  by (induction xs) (auto simp: filter_empty_conv)

lemma stateOf_simps:
  "stateOf (Inl (e, s, n)) = s" "stateOf (Inr (s, cmds, n)) = s"
  by (simp_all add: stateOf_def)

lemma windowStart_tryScroll: "windowStart (stateOf (tryScroll doc tid a s)) = windowStart s"
proof (induction doc tid a s rule: tryScroll.induct)
  case (1 doc targetId attempts s)
  show ?case
  proof (cases "querySelector doc (selectorOf targetId) attempts")
    case (Inl e)
    then show ?thesis by (subst tryScroll.simps) (simp add: stateOf_def)
  next
    case (Inr r)
    show ?thesis
    proof (cases r)
      case (Some y)
      with Inr show ?thesis by (subst tryScroll.simps) (simp add: stateOf_def)
    next
      case None
      show ?thesis
      proof (cases "attempts + 1 < 10")
        case True
        have "tryScroll doc targetId attempts s = tryScroll doc targetId (attempts + 1) s"
          using Inr None True by (subst tryScroll.simps) simp
        with 1[OF Inr None True] show ?thesis by simp
      next
        case False
        with Inr None show ?thesis by (subst tryScroll.simps) (simp add: stateOf_def)
      qed
    qed
  qed
qed

lemma windowStart_scrollEffect: "windowStart (stateOf (scrollEffect doc s)) = windowStart s"
  by (simp add: scrollEffect_def windowStart_tryScroll stateOf_simps split: option.splits)

lemma windowStart_resolvePreview: "windowStart (resolvePreview s) = windowStart s"
  by (simp add: resolvePreview_def split: option.splits)

lemma reachable_windowStart: "reachable s \<Longrightarrow> 0 \<le> windowStart s"
proof (induction rule: reachable.induct)
  case initial
  show ?case by (rule windowStart_initial)
next
  case (user s es query vInc vExc aInc aExc key shown)
  then show ?case by simp
next
  case (decode s sp)
  then show ?case by (simp add: windowStart_applyParams)
next
  case (decodeTimeout s)
  then show ?case by (simp add: applyParamsTimeout_def)
next
  case (resolve s)
  then show ?case by (simp add: windowStart_resolvePreview)
next
  case (reset s)
  then show ?case by (simp add: windowStart_resetEffect)
next
  case (clamp s view)
  then show ?case by (simp add: windowStart_clampEffect)
next
  case (scroll s scrollY offset gridTop rowHeight cols)
  then show ?case by (simp add: windowStart_handleScroll)
next
  case (restore s view cols)
  then show ?case by (simp add: windowStart_restoreEffect)
next
  case (locate s doc)
  then show ?case by (simp add: windowStart_scrollEffect)
next
  case (release s)
  then show ?case by (simp add: clearRestoring_def)
qed

lemma reachable_deepLink: "reachable deepLink"
  unfolding deepLink_def by (intro reachable.restore reachable.decode reachable.initial)

lemma windowStart_deepLink: "windowStart deepLink = 241"
  unfolding deepLink_def by code_simp

section \<open>The claims about the window, the restoration and the identities\<close>

text \<open>
  What the clamp does by itself: in every state the application can reach, it leaves
  \<open>0 \<le> windowStart \<le> windowEnd \<le> viewLength\<close> and \<open>windowEnd - windowStart \<le> WINDOW_SIZE\<close>,
  it never raises \<open>windowStart\<close>, and when the view has become shorter than \<open>windowStart\<close>
  it brings it to the last index of the view (0 for an empty view).
\<close>

lemma clampEffect_invariant:
  assumes "reachable s"
  shows "0 \<le> windowStart (clampEffect view s) \<and>
     windowStart (clampEffect view s) \<le> windowEnd view (clampEffect view s) \<and>
     windowEnd view (clampEffect view s) \<le> int (length view) \<and>
     windowEnd view (clampEffect view s) - windowStart (clampEffect view s) \<le> WINDOW_SIZE \<and>
     windowStart (clampEffect view s) \<le> windowStart s \<and>
     (int (length view) < windowStart s \<longrightarrow>
        windowStart (clampEffect view s) = max 0 (int (length view) - 1) \<and>
        windowStart (clampEffect view s) \<le> int (length view))"
  using reachable_windowStart[OF assms]
  by (auto simp: clampEffect_def windowEnd_def WINDOW_SIZE_def)

text \<open>But in the commit the clamp is not the last writer: \<^verbatim>\<open>handleScroll\<close> follows it, and
  when no restoration is under way the window start it computes from the scroll position
  is the one that stays, whatever the length of the view.\<close>

lemma filterCommit_windowStart:
  assumes "\<not> restoringRef s" and "pendingIndex s = None"
  shows "windowStart (filterCommit view scrollY offset gridTop rowHeight cols s) =
         windowStart (handleScroll scrollY offset gridTop rowHeight cols s)"
  using assms
  by (simp add: filterCommit_def restoreEffect_def handleScroll_def clampEffect_def
      resetEffect_def Let_def)

lemma reachable_filterCommit:
  "reachable s \<Longrightarrow> reachable (filterCommit view scrollY offset gridTop rowHeight cols s)"
  unfolding filterCommit_def
  by (intro reachable.restore reachable.scroll reachable.clamp reachable.reset)

lemma filterKeeps_cong:
  "q s = q s' \<Longrightarrow> versionIncludes s = versionIncludes s' \<Longrightarrow>
   versionExcludes s = versionExcludes s' \<Longrightarrow> authorIncludes s = authorIncludes s' \<Longrightarrow>
   authorExcludes s = authorExcludes s' \<Longrightarrow> filterKeeps s = filterKeeps s'"
  by (rule ext)
    (simp add: filterKeeps_def searchTerms_def versionIncludeSet_def versionExcludeSet_def
      authorIncludeSet_def authorExcludeSet_def)

lemma scrolledDeep_fields:
  "entries scrolledDeep = bigCatalog" "q scrolledDeep = []" "versionIncludes scrolledDeep = []"
  "versionExcludes scrolledDeep = []" "authorIncludes scrolledDeep = []"
  "authorExcludes scrolledDeep = []" "sortKey scrolledDeep = Newest"
  "\<not> restoringRef scrolledDeep" "pendingIndex scrolledDeep = None"
  by (simp_all add: scrolledDeep_def handleScroll_def initialApp_def Let_def)

lemma scrolledDeep_view: "length (filtered codeUnitCompare scrolledDeep) = 500"
proof -
  have "survives scrolledDeep = (\<lambda>e. True)"
    by (rule ext) (simp add: survives_no_constraints scrolledDeep_fields)
  then have "mset (filtered codeUnitCompare scrolledDeep) = mset bigCatalog"
    by (simp add: filtered_mset filterKeeps_survives[abs_def] scrolledDeep_fields)
  then have "length (filtered codeUnitCompare scrolledDeep) = length bigCatalog"
    by (rule mset_eq_length)
  then show ?thesis by (simp add: bigCatalog_def)
qed

lemma narrowed_keeps:
  "filterKeeps narrowed entry120" "filterKeeps narrowed entry121" "\<not> filterKeeps narrowed towerEntry"
proof -
  have c: "filterKeeps narrowed = filterKeeps (initialApp\<lparr> q := ''1.2'' \<rparr>)"
    by (rule filterKeeps_cong) (simp_all add: narrowed_def scrolledDeep_fields initialApp_def)
  show "filterKeeps narrowed entry120" unfolding c by code_simp
  show "filterKeeps narrowed entry121" unfolding c by code_simp
  show "\<not> filterKeeps narrowed towerEntry" unfolding c by code_simp
qed

lemma narrowView_eq: "narrowView = [entry121, entry120]"
proof -
  have "filter (filterKeeps narrowed) (entries narrowed) = [entry120, entry121]"
    by (simp add: narrowed_def scrolledDeep_fields bigCatalog_def narrowed_keeps[unfolded narrowed_def])
  moreover have "sortKey narrowed = Newest"
    by (simp add: narrowed_def scrolledDeep_fields)
  moreover have "createdAt entry120 = 100" "createdAt entry121 = 200"
    by (simp_all add: entry120_def entry121_def)
  ultimately show ?thesis
    by (simp add: narrowView_def filtered_def sortBy_two compareEntries_def)
qed

lemma reachable_narrowed: "reachable narrowed"
proof -
  have "reachable scrolledDeep"
    unfolding scrolledDeep_def
    using reachable.user[OF reachable.initial, where es = bigCatalog and query = "[]" and vInc = "[]"
        and vExc = "[]" and aInc = "[]" and aExc = "[]" and key = Newest and shown = None]
    by (intro reachable.scroll) (simp add: initialApp_def)
  from reachable.user[OF this, where es = bigCatalog and query = "''1.2''" and vInc = "[]"
        and vExc = "[]" and aInc = "[]" and aExc = "[]" and key = Newest and shown = None]
  show ?thesis
    by (simp add: narrowed_def scrolledDeep_def handleScroll_def initialApp_def Let_def)
qed

text \<open>
  C4. The window start is left past the end when a filter narrows the view. The page is
  scrolled 84 rows down a view of 500 entries in three columns (row height 376):
  \<open>windowStart = 243\<close>. The search \<open>1.2\<close> then narrows the view to two entries. The clamp,
  after the reset, gives 0; but \<^verbatim>\<open>handleScroll\<close>, called by the scroll effect in the same
  commit, reads the scroll position and writes 243 again (or 228, if the browser has
  brought the scroll position back to row 79 meanwhile). The commit ends in a state the
  application can reach with \<open>windowStart = 243\<close> and \<open>windowEnd = 2\<close>:
  \<open>windowStart \<le> windowEnd\<close> fails, and no card is rendered although two entries match. No
  effect runs again until the user scrolls.
\<close>

theorem narrowing_leaves_window_past_end:
  "length (filtered codeUnitCompare scrolledDeep) = 500 \<and>
   windowStart scrolledDeep = 243 \<and>
   narrowView = [entry121, entry120] \<and>
   windowStart (clampEffect narrowView (resetEffect narrowed)) = 0 \<and>
   windowStart (filterCommit narrowView 31584 0 0 (approxRowHeight None) 3 narrowed) = 243 \<and>
   windowEnd narrowView (filterCommit narrowView 31584 0 0 (approxRowHeight None) 3 narrowed) = 2 \<and>
   windowEnd narrowView (filterCommit narrowView 31584 0 0 (approxRowHeight None) 3 narrowed)
     < windowStart (filterCommit narrowView 31584 0 0 (approxRowHeight None) 3 narrowed) \<and>
   int (length narrowView)
     < windowStart (filterCommit narrowView 31584 0 0 (approxRowHeight None) 3 narrowed) \<and>
   visible narrowView (filterCommit narrowView 31584 0 0 (approxRowHeight None) 3 narrowed) = [] \<and>
   reachable (filterCommit narrowView 31584 0 0 (approxRowHeight None) 3 narrowed) \<and>
   windowStart (filterCommit narrowView 29704 0 0 (approxRowHeight None) 3 narrowed) = 228"
proof -
  have h: "approxRowHeight None = 376"
    by (simp add: approxRowHeight_def ROW_GAP_def)
  have f: "\<lfloor>31584 / 376 :: real\<rfloor> = 84" "\<lfloor>29704 / 376 :: real\<rfloor> = 79"
    by simp_all
  have d: "\<not> restoringRef narrowed" "pendingIndex narrowed = None"
    by (simp_all add: narrowed_def scrolledDeep_fields)
  have 0: "length (filtered codeUnitCompare scrolledDeep) = 500"
    by (rule scrolledDeep_view)
  have 1: "windowStart scrolledDeep = 243"
    by (simp add: scrolledDeep_def handleScroll_def initialApp_def Let_def h f BUFFER_ROWS_def)
  have 2: "windowStart (clampEffect narrowView (resetEffect narrowed)) = 0"
    using d by (simp add: clampEffect_def resetEffect_def narrowView_eq)
  have 3: "windowStart (filterCommit narrowView 31584 0 0 (approxRowHeight None) 3 narrowed) = 243"
    unfolding filterCommit_windowStart[OF d]
    using d(1) by (simp add: handleScroll_def Let_def h f BUFFER_ROWS_def)
  have 4: "windowStart (filterCommit narrowView 29704 0 0 (approxRowHeight None) 3 narrowed) = 228"
    unfolding filterCommit_windowStart[OF d]
    using d(1) by (simp add: handleScroll_def Let_def h f BUFFER_ROWS_def)
  have 5: "windowEnd narrowView (filterCommit narrowView 31584 0 0 (approxRowHeight None) 3 narrowed) = 2"
    unfolding windowEnd_def 3 by (simp add: WINDOW_SIZE_def narrowView_eq)
  have 6: "visible narrowView (filterCommit narrowView 31584 0 0 (approxRowHeight None) 3 narrowed) = []"
    unfolding visible_def Let_def 3 5 by (simp add: sliceIndex_def narrowView_eq)
  have 7: "reachable (filterCommit narrowView 31584 0 0 (approxRowHeight None) 3 narrowed)"
    by (rule reachable_filterCommit[OF reachable_narrowed])
  from 0 1 2 3 4 5 6 7 show ?thesis by (simp add: narrowView_eq)
qed

text \<open>
  C5. In every state the application can reach, with at least one column and a measured
  card height that is absent or non-negative: \<open>windowEnd = min(viewLength, windowStart + WINDOW_SIZE)\<close>
  with \<open>WINDOW_SIZE = 200\<close>, \<open>topRows\<close> is the floor of \<open>windowStart / columns\<close>,
  \<open>bottomRows\<close> is the ceiling of \<open>(viewLength - windowEnd) / columns\<close>, and the two
  spacers are \<open>topRows * approxRowHeight\<close> and \<open>bottomRows * approxRowHeight\<close> (the
  \<open>max\<close> with 0 in the code never bites).
\<close>

theorem window_geometry:
  assumes "reachable s" and "1 \<le> cols" and "\<forall>h. m = Some h \<longrightarrow> 0 \<le> h"
  shows "windowEnd view s = min (int (length view)) (windowStart s + WINDOW_SIZE) \<and>
     WINDOW_SIZE = 200 \<and>
     topRows cols s = \<lfloor>real_of_int (windowStart s) / real_of_int cols\<rfloor> \<and>
     topRows cols s = windowStart s div cols \<and>
     bottomRows view cols s =
       \<lceil>real_of_int (int (length view) - windowEnd view s) / real_of_int cols\<rceil> \<and>
     bottomRows view cols s = (int (length view) - windowEnd view s + cols - 1) div cols \<and>
     topSpacer (approxRowHeight m) cols s = real_of_int (topRows cols s) * approxRowHeight m \<and>
     bottomSpacer view (approxRowHeight m) cols s =
       real_of_int (bottomRows view cols s) * approxRowHeight m"
proof (intro conjI)
  have h: "0 \<le> approxRowHeight m"
    using assms(3) approxRowHeight_pos[of m] by (cases m) auto
  show "windowEnd view s = min (int (length view)) (windowStart s + WINDOW_SIZE)"
    by (simp add: windowEnd_def)
  show "WINDOW_SIZE = 200" by (simp add: WINDOW_SIZE_def)
  show "topRows cols s = \<lfloor>real_of_int (windowStart s) / real_of_int cols\<rfloor>"
    by (simp add: topRows_def)
  show tr: "topRows cols s = windowStart s div cols"
    by (simp add: topRows_def floor_divide_of_int_eq)
  show "bottomRows view cols s =
       \<lceil>real_of_int (int (length view) - windowEnd view s) / real_of_int cols\<rceil>"
    by (simp add: bottomRows_def)
  have rest: "0 \<le> int (length view) - windowEnd view s"
    by (simp add: windowEnd_def)
  show br: "bottomRows view cols s = (int (length view) - windowEnd view s + cols - 1) div cols"
    unfolding bottomRows_def by (rule ceiling_divide_int[OF assms(2)])
  have "0 \<le> topRows cols s"
    unfolding tr using reachable_windowStart[OF assms(1)] assms(2)
    by (simp add: pos_imp_zdiv_nonneg_iff)
  then have "0 \<le> real_of_int (topRows cols s) * approxRowHeight m"
    using h by simp
  then show "topSpacer (approxRowHeight m) cols s = real_of_int (topRows cols s) * approxRowHeight m"
    by (simp add: topSpacer_def)
  have "0 \<le> bottomRows view cols s"
    unfolding br using rest assms(2) by (simp add: pos_imp_zdiv_nonneg_iff)
  then have "0 \<le> real_of_int (bottomRows view cols s) * approxRowHeight m"
    using h by simp
  then show "bottomSpacer view (approxRowHeight m) cols s =
       real_of_int (bottomRows view cols s) * approxRowHeight m"
    by (simp add: bottomSpacer_def)
qed

theorem window_geometry_witness:
  "windowEnd wideView deepLink = 441 \<and>
   topRows 3 deepLink = 80 \<and>
   bottomRows wideView 3 deepLink = 20 \<and>
   topSpacer (approxRowHeight None) 3 deepLink = 30080 \<and>
   bottomSpacer wideView (approxRowHeight None) 3 deepLink = 7520"
proof -
  have a: "(1::int) \<le> 3" "\<forall>h. (None :: real option) = Some h \<longrightarrow> 0 \<le> h"
    by simp_all
  have l: "int (length wideView) = 500" by (simp add: wideView_def)
  note g = window_geometry[OF reachable_deepLink a, of wideView]
  from g have "windowEnd wideView deepLink = min (int (length wideView)) (windowStart deepLink + WINDOW_SIZE)"
    and w: "WINDOW_SIZE = 200"
    by blast+
  then have we: "windowEnd wideView deepLink = 441" using l by (simp add: windowStart_deepLink)
  from g have "topRows 3 deepLink = windowStart deepLink div 3" by blast
  then have tr: "topRows 3 deepLink = 80" by (simp add: windowStart_deepLink)
  from g have "bottomRows wideView 3 deepLink =
      (int (length wideView) - windowEnd wideView deepLink + 3 - 1) div 3"
    by blast
  then have br: "bottomRows wideView 3 deepLink = 20" using l we by simp
  from g have "topSpacer (approxRowHeight None) 3 deepLink =
      real_of_int (topRows 3 deepLink) * approxRowHeight None"
    by blast
  then have ts: "topSpacer (approxRowHeight None) 3 deepLink = 30080"
    using tr by (simp add: approxRowHeight_def ROW_GAP_def)
  from g have "bottomSpacer wideView (approxRowHeight None) 3 deepLink =
      real_of_int (bottomRows wideView 3 deepLink) * approxRowHeight None"
    by blast
  then have bs: "bottomSpacer wideView (approxRowHeight None) 3 deepLink = 7520"
    using br by (simp add: approxRowHeight_def ROW_GAP_def)
  from we tr br ts bs show ?thesis by simp
qed

text \<open>
  C7, as claimed: a target other than 0 sets \<open>windowStart\<close> to
  \<open>max(0, target - BUFFER_ROWS * columns)\<close>, 48 for target 57 and 3 columns. It does not
  when the view is shorter than the target: with 10 entries in the view the target is
  brought to 9, \<open>anchorIndex\<close> becomes 9 and \<open>windowStart\<close> becomes 0.
\<close>

theorem restore_from_target_counterexample:
  "windowStart (fst (restoreEffect shortView 3 (initialApp\<lparr> pendingIndex := Some 57 \<rparr>))) = 0 \<and>
   anchorIndex (fst (restoreEffect shortView 3 (initialApp\<lparr> pendingIndex := Some 57 \<rparr>))) = 9 \<and>
   max 0 (57 - BUFFER_ROWS * 3) = 48 \<and>
   windowStart (fst (restoreEffect shortView 3 (initialApp\<lparr> pendingIndex := Some 57 \<rparr>)))
     \<noteq> max 0 (57 - BUFFER_ROWS * 3)"
  by (simp add: restoreEffect_def shortView_def initialApp_def BUFFER_ROWS_def Let_def)

text \<open>
  C7, amended. With a pending target and a non-empty view, the target is first brought
  into \<open>[0, viewLength - 1]\<close>. If the result is 0, the effect asks for a scroll to the top
  and sets no element to look for: a scroll effect that follows, with no id pending from
  before, makes no lookup. Otherwise \<open>anchorIndex\<close> is the clamped target and
  \<open>windowStart = max(0, clamped target - BUFFER_ROWS * columns)\<close>. A target inside the
  view is its own clamp, so target 57 with 3 columns and more than 57 entries gives
  \<open>windowStart = 48\<close>.
\<close>

theorem restore_from_target:
  assumes "pendingIndex s = Some p" and "view \<noteq> []"
  shows "(targetIndex view p = 0 \<longrightarrow>
        restoreEffect view cols s =
          (s\<lparr> pendingIndex := None, restoringRef := True \<rparr>, [ScrollTo 0, ClearRestoringAfter 50]) \<and>
        (pendingScrollId s = None \<longrightarrow>
           scrollEffect doc (fst (restoreEffect view cols s)) =
             Inr (fst (restoreEffect view cols s), [], 0))) \<and>
     (targetIndex view p \<noteq> 0 \<longrightarrow>
        windowStart (fst (restoreEffect view cols s)) = max 0 (targetIndex view p - BUFFER_ROWS * cols) \<and>
        anchorIndex (fst (restoreEffect view cols s)) = targetIndex view p \<and>
        pendingIndex (fst (restoreEffect view cols s)) = None \<and>
        restoringRef (fst (restoreEffect view cols s)) \<and>
        snd (restoreEffect view cols s) = []) \<and>
     (0 \<le> p \<and> p < int (length view) \<longrightarrow> targetIndex view p = p) \<and>
     (p = 57 \<longrightarrow> cols = 3 \<longrightarrow> 57 < length view \<longrightarrow>
        windowStart (fst (restoreEffect view cols s)) = 48 \<and>
        anchorIndex (fst (restoreEffect view cols s)) = 57)"
  using assms
  by (auto simp: restoreEffect_def targetIndex_def Let_def scrollEffect_def BUFFER_ROWS_def)

theorem restore_from_target_witness:
  "windowStart (fst (restoreEffect longView 3 (initialApp\<lparr> pendingIndex := Some 57 \<rparr>))) = 48 \<and>
   anchorIndex (fst (restoreEffect longView 3 (initialApp\<lparr> pendingIndex := Some 57 \<rparr>))) = 57 \<and>
   restoreEffect longView 3 (initialApp\<lparr> pendingIndex := Some 0 \<rparr>) =
     (initialApp\<lparr> pendingIndex := None, restoringRef := True \<rparr>,
      [ScrollTo 0, ClearRestoringAfter 50])"
proof -
  have v: "longView \<noteq> []" "57 < length longView"
    by (simp_all add: longView_def)
  have p: "pendingIndex (initialApp\<lparr> pendingIndex := Some 57 \<rparr>) = Some 57"
    "pendingIndex (initialApp\<lparr> pendingIndex := Some 0 \<rparr>) = Some 0"
    by simp_all
  have t: "targetIndex longView 0 = 0"
    by (simp add: targetIndex_def)
  from restore_from_target[OF p(1) v(1), of 3] v(2)
  have 1: "windowStart (fst (restoreEffect longView 3 (initialApp\<lparr> pendingIndex := Some 57 \<rparr>))) = 48"
    "anchorIndex (fst (restoreEffect longView 3 (initialApp\<lparr> pendingIndex := Some 57 \<rparr>))) = 57"
    by simp_all
  from restore_from_target[OF p(2) v(1), of 3] t
  have 2: "restoreEffect longView 3 (initialApp\<lparr> pendingIndex := Some 0 \<rparr>) =
     (initialApp\<lparr> pendingIndex := None, restoringRef := True \<rparr>,
      [ScrollTo 0, ClearRestoringAfter 50])"
    by simp
  from 1 2 show ?thesis by simp
qed

text \<open>
  What holds of the loop: it ends after at least one and at most ten lookups, all but the
  last of which returned \<^verbatim>\<open>null\<close> (\<open>tryScroll_outcome\<close>), and when all ten return \<^verbatim>\<open>null\<close> it
  ends by clearing \<^verbatim>\<open>restoringRef\<close> and asks for no scroll (\<open>tryScroll_all_missing\<close>).

  C9. It does throw for some target ids. Only the double quotes of the id are escaped in
  the selector, so an id with a line feed makes a selector that \<^verbatim>\<open>querySelector\<close> rejects. In
  a catalog whose third entry has the file name \<open>two\<close>, line feed, \<open>lines\<close>, that entry's id
  is \<open>two\<close>, line feed, \<open>lines-2\<close>. A link with \<open>idx=2\<close> makes the restoration set this id to
  look for, with \<^verbatim>\<open>restoringRef\<close> set. Whatever the document holds, the first lookup then
  throws \<^verbatim>\<open>SyntaxError\<close>: one lookup is made, no other frame is requested and no timer is
  set, so \<^verbatim>\<open>restoringRef\<close> is never cleared and the id stays pending; \<^verbatim>\<open>handleScroll\<close> does
  nothing in that state, so the window no longer follows the scroll position.
\<close>

theorem tryScroll_throws_on_line_feed:
  "map entry_id (normalized newlineCatalog) =
     [''a.litematic-0'', ''b.litematic-1'', ''two'' @ [CHR 0x0A] @ ''lines-2''] \<and>
   pendingScrollId newlineRestore = Some (''two'' @ [CHR 0x0A] @ ''lines-2'') \<and>
   restoringRef newlineRestore \<and>
   selectorOf (''two'' @ [CHR 0x0A] @ ''lines-2'') =
     ''[data-entry-id='' @ [CHR 0x22] @ ''two'' @ [CHR 0x0A] @ ''lines-2'' @ [CHR 0x22] @ '']'' \<and>
   scrollEffect doc newlineRestore = Inl (SyntaxError, newlineRestore, 1) \<and>
   restoringRef (stateOf (scrollEffect doc newlineRestore)) \<and>
   pendingScrollId (stateOf (scrollEffect doc newlineRestore)) =
     Some (''two'' @ [CHR 0x0A] @ ''lines-2'') \<and>
   handleScroll scrollY offset gridTop rowHeight cols newlineRestore = newlineRestore"
proof -
  have ids: "map entry_id (normalized newlineCatalog) =
     [''a.litematic-0'', ''b.litematic-1'', ''two'' @ [CHR 0x0A] @ ''lines-2'']"
    by code_simp
  have p: "pendingScrollId newlineRestore = Some (''two'' @ [CHR 0x0A] @ ''lines-2'')"
    by code_simp
  have r: "restoringRef newlineRestore"
    by code_simp
  have sel: "selectorOf (''two'' @ [CHR 0x0A] @ ''lines-2'') =
     ''[data-entry-id='' @ [CHR 0x22] @ ''two'' @ [CHR 0x0A] @ ''lines-2'' @ [CHR 0x22] @ '']''"
    by code_simp
  have "brokenString (selectorOf (''two'' @ [CHR 0x0A] @ ''lines-2''))"
    by code_simp
  then have "querySelector doc (selectorOf (''two'' @ [CHR 0x0A] @ ''lines-2'')) 0 = Inl SyntaxError"
    by (simp add: querySelector_def)
  then have "tryScroll doc (''two'' @ [CHR 0x0A] @ ''lines-2'') 0 newlineRestore =
      Inl (SyntaxError, newlineRestore, 0 + 1)"
    by (rule tryScroll_throws)
  then have t: "scrollEffect doc newlineRestore = Inl (SyntaxError, newlineRestore, 1)"
    by (simp add: scrollEffect_def p)
  have h: "handleScroll scrollY offset gridTop rowHeight cols newlineRestore = newlineRestore"
    using r by (simp add: handleScroll_def)
  from ids p r sel t h show ?thesis by (simp add: stateOf_def)
qed

text \<open>
  C10. The ids of the entries of one load are pairwise distinct: the id of the entry at
  index \<open>i\<close> is its file name, a hyphen, and \<open>i\<close> in decimal, and no id is the id of more
  than one entry.
\<close>

theorem entry_ids_distinct:
  "distinct (map entry_id (normalized raw)) \<and>
   (\<forall>i < length raw. entry_id (normalized raw ! i) = file_name (raw ! i) @ ''-'' @ natToString i) \<and>
   length (filter (\<lambda>e. entry_id e = pid) (normalized raw)) \<le> 1"
proof (intro conjI allI impI)
  show d: "distinct (map entry_id (normalized raw))" by (rule distinct_ids)
  show "entry_id (normalized raw ! i) = file_name (raw ! i) @ ''-'' @ natToString i"
    if "i < length raw" for i
    using that by (rule nth_normalized_id)
  have "length (filter (\<lambda>e. entry_id e = pid) (normalized raw)) =
        length (filter (\<lambda>x. x = pid) (map entry_id (normalized raw)))"
    by (simp add: filter_map comp_def)
  also have "\<dots> \<le> 1" using d by (rule distinct_count_le_one)
  finally show "length (filter (\<lambda>e. entry_id e = pid) (normalized raw)) \<le> 1" .
qed

theorem entry_ids_distinct_witness:
  "map entry_id (normalized rawCatalog) = [''a-0'', ''a-1'', ''a-1-2''] \<and>
   distinct (map entry_id (normalized rawCatalog)) \<and>
   length (filter (\<lambda>e. entry_id e = ''a-1'') (normalized rawCatalog)) \<le> 1"
proof -
  have "map entry_id (normalized rawCatalog) = [''a-0'', ''a-1'', ''a-1-2'']"
    by code_simp
  with entry_ids_distinct[of rawCatalog "''a-1''"] show ?thesis by simp
qed

end
